theory Spec2Isabelle
  imports Main
begin

section \<open>Bytes, errors and values\<close>

text \<open>
  Go's \<^verbatim>\<open>[]byte\<close> and \<^verbatim>\<open>string\<close> are both sequences of bytes: \<^typ>\<open>string\<close>.
\<close>

type_synonym bytes = string

abbreviation CR :: char where "CR \<equiv> CHR 0x0D"
abbreviation LF :: char where "LF \<equiv> CHR 0x0A"
abbreviation CRLF :: bytes where "CRLF \<equiv> [CR, LF]"

text \<open>
  A Go \<^verbatim>\<open>error\<close> is carried by its text, as \<^verbatim>\<open>errors.New\<close> builds it;
  \<open>Error\<close> is the method \<^verbatim>\<open>e.Error()\<close>. The value \<^verbatim>\<open>nil\<close> of type
  \<^verbatim>\<open>error\<close> is \<open>None\<close> of \<^typ>\<open>'a option\<close>.
\<close>

datatype error = errors_New string

fun Error :: "error \<Rightarrow> string" where
  "Error (errors_New s) = s"

definition CommonErrPrefix :: string where
  "CommonErrPrefix = ''CommonError:''"

definition ErrNil :: error where
  "ErrNil = errors_New ''nil data return''"

definition ErrBadType :: error where
  "ErrBadType = errors_New ''invalid return type''"

definition ErrBadTerminator :: error where
  "ErrBadTerminator = errors_New ''invalid terminator''"

definition RetryWaitSeconds :: int where
  "RetryWaitSeconds = 2000000000"

text \<open>Errors of the Go library that the connection can meet.\<close>

definition io_EOF :: error where
  "io_EOF = errors_New ''EOF''"

definition io_ErrUnexpectedEOF :: error where
  "io_ErrUnexpectedEOF = errors_New ''unexpected EOF''"

definition net_ErrClosed :: error where
  "net_ErrClosed = errors_New ''use of closed network connection''"

text \<open>\<^verbatim>\<open>strings.Contains(s, substr)\<close>.\<close>

fun strings_Contains :: "string \<Rightarrow> string \<Rightarrow> bool" where
  "strings_Contains [] substr = (substr = [])"
| "strings_Contains (x # xs) substr =
     (take (length substr) (x # xs) = substr \<or> strings_Contains xs substr)"

text \<open>
  A Go function either returns or panics; a panic that nothing recovers
  unwinds through every caller.
\<close>

datatype 'a outcome = Return 'a | Panic

text \<open>
  The arguments of a command are \<^verbatim>\<open>interface{}\<close> values; \<open>arg\<close> has one
  constructor for each case of the type switch in \<^verbatim>\<open>writeRequest\<close>. A
  \<^verbatim>\<open>float64\<close> is carried by the text \<^verbatim>\<open>strconv.AppendFloat(_, f, 'g', -1, 64)\<close>
  gives it, a value of any other type by the text \<^verbatim>\<open>fmt.Sprintf("%v", _)\<close> gives it.
\<close>

datatype arg =
    AInt int
  | AInt64 int
  | AFloat64 bytes
  | AString string
  | ABytes bytes
  | ABool bool
  | ANil
  | AOther string

text \<open>
  The values \<^verbatim>\<open>readResponse\<close> returns as \<^verbatim>\<open>interface{}\<close>: the nil interface,
  a \<^verbatim>\<open>[]byte\<close>, an \<^verbatim>\<open>int64\<close>, or a \<^verbatim>\<open>[]interface{}\<close>. A slice of interfaces
  is \<open>None\<close> when it is the nil slice. An interface that holds the nil slice
  is \<open>IfaceSlice None\<close>, which is not the nil interface \<open>NilIface\<close>.
\<close>

datatype reply =
    NilIface
  | ByteSlice bytes
  | Int64 int
  | IfaceSlice "reply list option"

section \<open>The connection\<close>

text \<open>
  The fields of \<^verbatim>\<open>Conn\<close> that the codec uses, and the socket behind it:
  \<^item> \<open>buffer\<close> is the scratch buffer of \<^verbatim>\<open>writeLen\<close>;
  \<^item> \<open>wb\<close> holds the bytes buffered in the \<^verbatim>\<open>bufio.Writer\<close> and \<open>wb_err\<close> its
    sticky error; \<open>sent\<close> holds the bytes that reached the socket;
  \<^item> \<open>rb\<close> holds the bytes the reader will still deliver (those buffered in the
    \<^verbatim>\<open>bufio.Reader\<close> and those the peer sends before the stream ends);
  \<^item> \<open>sock_err\<close> is the error the socket answers writes and deadline calls
    with, if it is broken; \<open>closed\<close> says that \<^verbatim>\<open>Close\<close> was called;
  \<^item> \<open>has_pool\<close> says that the field \<^verbatim>\<open>pool\<close> is not nil.
  The fields \<^verbatim>\<open>keepAlive\<close> and \<^verbatim>\<open>lastActiveTime\<close> play no part in the codec.
\<close>

record conn =
  pipeCount :: nat
  buffer :: bytes
  rb :: bytes
  wb :: bytes
  wb_err :: "error option"
  sent :: bytes
  sock_err :: "error option"
  closed :: bool
  readTimeout :: int
  writeTimeout :: int
  has_pool :: bool

definition DefaultBufferSize :: nat where
  "DefaultBufferSize = 64"

text \<open>
  \<^verbatim>\<open>NewConn\<close> on a fresh socket whose peer will send \<open>input\<close>.
\<close>

definition NewConn :: "bytes \<Rightarrow> int \<Rightarrow> int \<Rightarrow> bool \<Rightarrow> conn" where
  "NewConn input rt wt pooled =
     \<lparr>pipeCount = 0, buffer = replicate DefaultBufferSize (CHR 0x00), rb = input,
      wb = [], wb_err = None, sent = [], sock_err = None, closed = False,
      readTimeout = rt, writeTimeout = wt, has_pool = pooled\<rparr>"

subsection \<open>The socket and the buffered reader and writer\<close>

definition sock_fail :: "conn \<Rightarrow> error option" where
  "sock_fail c = (if closed c then Some net_ErrClosed else sock_err c)"

text \<open>\<^verbatim>\<open>c.conn.SetWriteDeadline\<close> and \<^verbatim>\<open>c.conn.SetReadDeadline\<close>.\<close>

definition SetDeadline :: "conn \<Rightarrow> error option" where
  "SetDeadline c = sock_fail c"

text \<open>
  \<^verbatim>\<open>c.wb.Write\<close> and \<^verbatim>\<open>c.wb.WriteString\<close>: the bytes join the buffer, unless an
  earlier flush failed. The writer's buffer is taken as large as needed.
\<close>

definition wb_Write :: "bytes \<Rightarrow> conn \<Rightarrow> error option \<times> conn" where
  "wb_Write p c =
     (case wb_err c of
        Some e \<Rightarrow> (Some e, c)
      | None \<Rightarrow> (None, c\<lparr>wb := wb c @ p\<rparr>))"

text \<open>\<^verbatim>\<open>c.wb.Flush\<close>.\<close>

definition wb_Flush :: "conn \<Rightarrow> error option \<times> conn" where
  "wb_Flush c =
     (case wb_err c of
        Some e \<Rightarrow> (Some e, c)
      | None \<Rightarrow>
          if wb c = [] then (None, c)
          else (case sock_fail c of
                  Some e \<Rightarrow> (Some e, c\<lparr>wb_err := Some e\<rparr>)
                | None \<Rightarrow> (None, c\<lparr>sent := sent c @ wb c, wb := []\<rparr>)))"

text \<open>
  \<^verbatim>\<open>c.rb.ReadBytes(delim)\<close>: the bytes up to and including the first \<open>delim\<close>;
  when the stream ends before one, all the bytes left and \<^verbatim>\<open>io.EOF\<close>.
\<close>

definition rb_ReadBytes :: "char \<Rightarrow> conn \<Rightarrow> (bytes \<times> error option) \<times> conn" where
  "rb_ReadBytes delim c =
     (if delim \<in> set (rb c)
      then ((takeWhile (\<lambda>b. b \<noteq> delim) (rb c) @ [delim], None),
            c\<lparr>rb := tl (dropWhile (\<lambda>b. b \<noteq> delim) (rb c))\<rparr>)
      else ((rb c, Some io_EOF), c\<lparr>rb := []\<rparr>))"

text \<open>
  \<^verbatim>\<open>io.ReadFull(c.rb, buf)\<close> on a zeroed buffer of \<open>m\<close> bytes: the buffer after
  the call, and the error.
\<close>

definition io_ReadFull :: "nat \<Rightarrow> conn \<Rightarrow> (bytes \<times> error option) \<times> conn" where
  "io_ReadFull m c =
     (if m = 0 then (([], None), c)
      else if m \<le> length (rb c)
      then ((take m (rb c), None), c\<lparr>rb := drop m (rb c)\<rparr>)
      else if rb c = [] then ((replicate m (CHR 0x00), Some io_EOF), c)
      else ((rb c @ replicate (m - length (rb c)) (CHR 0x00), Some io_ErrUnexpectedEOF),
            c\<lparr>rb := []\<rparr>))"

section \<open>Encoding a request\<close>

text \<open>Go's \<^verbatim>\<open>/\<close> and \<^verbatim>\<open>%\<close> on integers truncate towards zero.\<close>

definition go_quot :: "int \<Rightarrow> int \<Rightarrow> int" where
  "go_quot a b = sgn a * sgn b * (\<bar>a\<bar> div \<bar>b\<bar>)"

definition go_rem :: "int \<Rightarrow> int \<Rightarrow> int" where
  "go_rem a b = a - b * go_quot a b"

text \<open>An assignment \<^verbatim>\<open>buf[pos] = v\<close>; \<open>None\<close> is the panic of an index out of range.\<close>

definition set_at :: "bytes \<Rightarrow> int \<Rightarrow> char \<Rightarrow> bytes option" where
  "set_at buf pos v =
     (if 0 \<le> pos \<and> pos < int (length buf) then Some (buf[nat pos := v]) else None)"

text \<open>
  The loop of \<^verbatim>\<open>writeLen\<close>:
  \<^verbatim>\<open>for i := n; i != 0 && pos >= 0; i = i / 10 { c.buffer[pos] = byte(i%10 + '0'); pos-- }\<close>.
  It starts below the end of the buffer, so its index is in range when it is
  not negative.
\<close>

function writeLen_loop :: "int \<Rightarrow> int \<Rightarrow> bytes \<Rightarrow> int \<times> bytes" where
  "writeLen_loop i pos buf =
     (if i \<noteq> 0 \<and> pos \<ge> 0
      then writeLen_loop (go_quot i 10) (pos - 1)
             (buf[nat pos := char_of (go_rem i 10 + of_char (CHR ''0''))])
      else (pos, buf))"
  by pat_completeness auto
termination
  by (relation "measure (\<lambda>(i, pos, buf). nat (pos + 1))") auto

declare writeLen_loop.simps [simp del]

definition writeLen :: "char \<Rightarrow> int \<Rightarrow> conn \<Rightarrow> error option outcome \<times> conn" where
  "writeLen prefix n c =
     (let pos = int (length (buffer c)) - 1 in
      case set_at (buffer c) pos LF of
        None \<Rightarrow> (Panic, c)
      | Some b1 \<Rightarrow>
          (case set_at b1 (pos - 1) CR of
             None \<Rightarrow> (Panic, c\<lparr>buffer := b1\<rparr>)
           | Some b2 \<Rightarrow>
               (case writeLen_loop n (pos - 2) b2 of
                  (pos', b3) \<Rightarrow>
                    (case set_at b3 pos' prefix of
                       None \<Rightarrow> (Panic, c\<lparr>buffer := b3\<rparr>)
                     | Some b4 \<Rightarrow>
                         (case wb_Write (drop (nat pos') b4) (c\<lparr>buffer := b4\<rparr>) of
                            (e, c') \<Rightarrow> (Return e, c'))))))"

definition writeBytes :: "bytes \<Rightarrow> conn \<Rightarrow> error option outcome \<times> conn" where
  "writeBytes b c =
     (case writeLen (CHR ''$'') (int (length b)) c of
        (Panic, c1) \<Rightarrow> (Panic, c1)
      | (Return (Some e), c1) \<Rightarrow> (Return (Some e), c1)
      | (Return None, c1) \<Rightarrow>
          (case wb_Write b c1 of
             (Some e, c2) \<Rightarrow> (Return (Some e), c2)
           | (None, c2) \<Rightarrow>
               (case wb_Write CRLF c2 of
                  (Some e, c3) \<Rightarrow> (Return (Some e), c3)
                | (None, c3) \<Rightarrow> (Return None, c3))))"

definition writeString :: "string \<Rightarrow> conn \<Rightarrow> error option outcome \<times> conn" where
  "writeString s c =
     (case writeLen (CHR ''$'') (int (length s)) c of
        (Panic, c1) \<Rightarrow> (Panic, c1)
      | (Return (Some e), c1) \<Rightarrow> (Return (Some e), c1)
      | (Return None, c1) \<Rightarrow>
          (case wb_Write s c1 of
             (Some e, c2) \<Rightarrow> (Return (Some e), c2)
           | (None, c2) \<Rightarrow>
               (case wb_Write CRLF c2 of
                  (Some e, c3) \<Rightarrow> (Return (Some e), c3)
                | (None, c3) \<Rightarrow> (Return None, c3))))"

text \<open>\<^verbatim>\<open>strconv.AppendInt([]byte{}, n, 10)\<close>: the decimal digits of \<open>n\<close>, after its sign.\<close>

function nat_digits :: "nat \<Rightarrow> string" where
  "nat_digits n =
     (if n < 10 then [char_of (n + of_char (CHR ''0''))]
      else nat_digits (n div 10) @ [char_of (n mod 10 + of_char (CHR ''0''))])"
  by pat_completeness auto
termination
  by (relation "measure (\<lambda>n. n)") auto

declare nat_digits.simps [simp del]

definition strconv_AppendInt :: "int \<Rightarrow> bytes" where
  "strconv_AppendInt n =
     (if n < 0 then CHR ''-'' # nat_digits (nat (- n)) else nat_digits (nat n))"

definition writeInt64 :: "int \<Rightarrow> conn \<Rightarrow> error option outcome \<times> conn" where
  "writeInt64 n c = writeBytes (strconv_AppendInt n) c"

text \<open>\<^verbatim>\<open>writeFloat64\<close>, on the text of the number.\<close>

definition writeFloat64 :: "bytes \<Rightarrow> conn \<Rightarrow> error option outcome \<times> conn" where
  "writeFloat64 f c = writeBytes f c"

text \<open>The type switch in the loop of \<^verbatim>\<open>writeRequest\<close>.\<close>

fun writeArg :: "arg \<Rightarrow> conn \<Rightarrow> error option outcome \<times> conn" where
  "writeArg (AInt d) c = writeInt64 d c"
| "writeArg (AInt64 d) c = writeInt64 d c"
| "writeArg (AFloat64 d) c = writeFloat64 d c"
| "writeArg (AString d) c = writeString d c"
| "writeArg (ABytes d) c = writeBytes d c"
| "writeArg (ABool d) c = (if d then writeString ''1'' c else writeString ''0'' c)"
| "writeArg ANil c = writeString [] c"
| "writeArg (AOther d) c = writeString d c"

text \<open>
  The loop of \<^verbatim>\<open>writeRequest\<close> over the arguments; \<open>e\<close> is the error of the
  step before, checked at the head of each round.
\<close>

fun writeRequest_loop :: "arg list \<Rightarrow> error option \<Rightarrow> conn \<Rightarrow> error option outcome \<times> conn" where
  "writeRequest_loop [] e c = (Return e, c)"
| "writeRequest_loop (a # as) e c =
     (case e of
        Some err \<Rightarrow> (Return (Some err), c)
      | None \<Rightarrow>
          (case writeArg a c of
             (Panic, c1) \<Rightarrow> (Panic, c1)
           | (Return e1, c1) \<Rightarrow> writeRequest_loop as e1 c1))"

definition writeRequest :: "string \<Rightarrow> arg list \<Rightarrow> conn \<Rightarrow> error option outcome \<times> conn" where
  "writeRequest command args c =
     (case writeLen (CHR ''*'') (1 + int (length args)) c of
        (Panic, c1) \<Rightarrow> (Panic, c1)
      | (Return (Some e), c1) \<Rightarrow> (Return (Some e), c1)
      | (Return None, c1) \<Rightarrow>
          (case writeString command c1 of
             (Panic, c2) \<Rightarrow> (Panic, c2)
           | (Return (Some e), c2) \<Rightarrow> (Return (Some e), c2)
           | (Return None, c2) \<Rightarrow> writeRequest_loop args None c2))"

section \<open>Decoding a reply\<close>

subsection \<open>\<^verbatim>\<open>strconv.ParseInt(s, 10, 64)\<close>\<close>

text \<open>
  The library function scans the digits from the left and stops at the first
  byte that is no digit (a syntax error) or at the first step that leaves 64
  unsigned bits (a range error); the signed range is checked at the end.
\<close>

datatype num_err = ErrSyntax | ErrRange

definition is_digit :: "char \<Rightarrow> bool" where
  "is_digit ch = (48 \<le> (of_char ch :: nat) \<and> (of_char ch :: nat) \<le> 57)"

fun parseUint_loop :: "nat \<Rightarrow> string \<Rightarrow> num_err + nat" where
  "parseUint_loop n [] = Inr n"
| "parseUint_loop n (ch # s) =
     (if \<not> is_digit ch then Inl ErrSyntax
      else if n \<ge> (2 ^ 64 - 1) div 10 + 1 then Inl ErrRange
      else (let n1 = n * 10 + (of_char ch - 48)
            in if n1 > 2 ^ 64 - 1 then Inl ErrRange else parseUint_loop n1 s))"

definition strconv_ParseUint :: "string \<Rightarrow> num_err + nat" where
  "strconv_ParseUint s = (if s = [] then Inl ErrSyntax else parseUint_loop 0 s)"

text \<open>
  The text of a \<^verbatim>\<open>*strconv.NumError\<close>. The library quotes the number with
  \<^verbatim>\<open>strconv.Quote\<close>; its escapes for quotes, backslashes and bytes that do not
  print are left out here.
\<close>

definition NumError :: "string \<Rightarrow> num_err \<Rightarrow> error" where
  "NumError num err =
     errors_New (''strconv.ParseInt: parsing '' @ [CHR 0x22] @ num @ [CHR 0x22] @ '': '' @
       (case err of ErrSyntax \<Rightarrow> ''invalid syntax'' | ErrRange \<Rightarrow> ''value out of range''))"

definition strconv_ParseInt :: "string \<Rightarrow> int \<times> error option" where
  "strconv_ParseInt s0 =
     (case s0 of
        [] \<Rightarrow> (0, Some (NumError s0 ErrSyntax))
      | ch # s1 \<Rightarrow>
          (let neg = (ch = CHR ''-'');
               s = (if ch = CHR ''+'' \<or> ch = CHR ''-'' then s1 else s0)
           in case strconv_ParseUint s of
                Inl ErrSyntax \<Rightarrow> (0, Some (NumError s0 ErrSyntax))
              | Inl ErrRange \<Rightarrow>
                  (if neg then (- (2 ^ 63), Some (NumError s0 ErrRange))
                   else (2 ^ 63 - 1, Some (NumError s0 ErrRange)))
              | Inr un \<Rightarrow>
                  if \<not> neg \<and> un \<ge> 2 ^ 63 then (2 ^ 63 - 1, Some (NumError s0 ErrRange))
                  else if neg \<and> un > 2 ^ 63 then (- (2 ^ 63), Some (NumError s0 ErrRange))
                  else (if neg then - int un else int un, None)))"

text \<open>An \<^verbatim>\<open>int64\<close> sum wraps around.\<close>

definition int64_wrap :: "int \<Rightarrow> int" where
  "int64_wrap x = (x + 2 ^ 63) mod 2 ^ 64 - 2 ^ 63"

subsection \<open>Lines, integers and bulk strings\<close>

text \<open>
  \<^verbatim>\<open>readLine\<close>. Its deferred \<^verbatim>\<open>recover\<close> turns a panic of the body into an
  error; on this reader the body has none, since \<open>i\<close> is positive and at most
  the length of \<open>p\<close> where the slice \<^verbatim>\<open>p[:i]\<close> is taken.
\<close>

definition readLine :: "conn \<Rightarrow> (bytes \<times> error option) \<times> conn" where
  "readLine c =
     (case rb_ReadBytes LF c of
        ((p, Some e), c1) \<Rightarrow> (([], Some e), c1)
      | ((p, None), c1) \<Rightarrow>
          (let i = int (length p) - 2
           in if i \<le> 0 then (([], Some ErrBadTerminator), c1)
              else ((take (nat i) p, None), c1)))"

definition parseInt :: "bytes \<Rightarrow> int \<times> error option" where
  "parseInt p =
     (case strconv_ParseInt p of
        (n, Some e) \<Rightarrow> (0, Some (errors_New (CommonErrPrefix @ Error e)))
      | (n, None) \<Rightarrow> (n, None))"

text \<open>
  \<^verbatim>\<open>parseBulkString\<close>. \<^verbatim>\<open>make([]byte, n+2)\<close> panics on a negative length, the
  slice \<^verbatim>\<open>result[:n]\<close> on a negative bound; memory is taken to suffice for any
  length that is not negative.
\<close>

definition parseBulkString :: "bytes \<Rightarrow> conn \<Rightarrow> (reply \<times> error option) outcome \<times> conn" where
  "parseBulkString p c =
     (case strconv_ParseInt p of
        (n, Some e) \<Rightarrow>
          (Return (ByteSlice [], Some (errors_New (CommonErrPrefix @ Error e))), c)
      | (n, None) \<Rightarrow>
          if n = - 1 then (Return (NilIface, None), c)
          else (let m = int64_wrap (n + 2)
                in if m < 0 then (Panic, c)
                   else (case io_ReadFull (nat m) c of
                           ((result, e), c1) \<Rightarrow>
                             if n < 0 \<or> int (length result) < n then (Panic, c1)
                             else (Return (ByteSlice (take (nat n) result), e), c1))))"

subsection \<open>Replies and arrays\<close>

text \<open>
  \<^verbatim>\<open>readResponse\<close> and \<^verbatim>\<open>parseArray\<close> call each other; \<open>parseArray_loop\<close> is the
  loop \<^verbatim>\<open>for ; i < n; i++\<close> of \<^verbatim>\<open>parseArray\<close> on the slice \<open>result\<close>. The
  \<^verbatim>\<open>[]interface{}\<close> that \<^verbatim>\<open>parseArray\<close> returns becomes an \<^verbatim>\<open>interface{}\<close> in
  \<^verbatim>\<open>readResponse\<close>: \<open>IfaceSlice\<close>, also around the nil slice.
\<close>

function readResponse :: "conn \<Rightarrow> (reply \<times> error option) outcome \<times> conn"
  and parseArray :: "bytes \<Rightarrow> conn \<Rightarrow> (reply list option \<times> error option) outcome \<times> conn"
  and parseArray_loop ::
    "int \<Rightarrow> int \<Rightarrow> reply list \<Rightarrow> conn \<Rightarrow> (reply list option \<times> error option) outcome \<times> conn"
where
  "readResponse c =
     (case readLine c of
        ((p, Some e), c1) \<Rightarrow> (Return (NilIface, Some e), c1)
      | ((p, None), c1) \<Rightarrow>
          (case p of
             [] \<Rightarrow> (Panic, c1)
           | resType # p1 \<Rightarrow>
               if resType = CHR ''-''
               then (Return (NilIface, Some (errors_New (CommonErrPrefix @ p1))), c1)
               else if resType = CHR '':''
               then (case parseInt p1 of (n, e) \<Rightarrow> (Return (Int64 n, e), c1))
               else if resType = CHR ''+''
               then (Return (ByteSlice p1, None), c1)
               else if resType = CHR ''$''
               then parseBulkString p1 c1
               else if resType = CHR ''*''
               then (case parseArray p1 c1 of
                       (Panic, c2) \<Rightarrow> (Panic, c2)
                     | (Return (a, e), c2) \<Rightarrow> (Return (IfaceSlice a, e), c2))
               else (Return (NilIface, Some (errors_New (CommonErrPrefix @ ''Err type''))), c1)))"
| "parseArray p c =
     (case strconv_ParseInt p of
        (n, Some e) \<Rightarrow> (Return (None, Some (errors_New (CommonErrPrefix @ Error e))), c)
      | (n, None) \<Rightarrow>
          if n = - 1 then (Return (None, None), c)
          else if n < 0 then (Panic, c)
          else parseArray_loop 0 n (replicate (nat n) NilIface) c)"
| "parseArray_loop i n result c =
     (if i < n
      then (case readResponse c of
              (Panic, c1) \<Rightarrow> (Panic, c1)
            | (Return (r, Some e), c1) \<Rightarrow> (Return (None, Some e), c1)
            | (Return (r, None), c1) \<Rightarrow> parseArray_loop (i + 1) n (result[nat i := r]) c1)
      else (Return (Some result, None), c))"
  by pat_completeness auto

text \<open>
  Each reply takes at least one line from the stream, which is finite: the
  decoder ends. Where it is defined it leaves no more of the stream than it
  found, which bounds the loop of \<^verbatim>\<open>parseArray\<close>.
\<close>

termination
proof -
  have bytes_lt: "length (rb c1) < length (rb c)"
    if a: "rb_ReadBytes d c = ((p, None), c1)" for d c p c1
  proof -
    have mem: "d \<in> set (rb c)"
      using a by (auto simp: rb_ReadBytes_def split: if_splits)
    then have c1: "rb c1 = tl (dropWhile (\<lambda>b. b \<noteq> d) (rb c))"
      using a by (auto simp: rb_ReadBytes_def)
    have ne: "dropWhile (\<lambda>b. b \<noteq> d) (rb c) \<noteq> []"
      using mem by simp
    have "length (dropWhile (\<lambda>b. b \<noteq> d) (rb c)) \<le> length (rb c)"
      by (rule length_dropWhile_le)
    with ne c1 show ?thesis
      by (cases "dropWhile (\<lambda>b. b \<noteq> d) (rb c)") auto
  qed
  have bytes_le: "length (rb c1) \<le> length (rb c)"
    if a: "rb_ReadBytes d c = (r, c1)" for d c r c1
  proof (cases "d \<in> set (rb c)")
    case True
    with a have "rb_ReadBytes d c = ((fst r, None), c1)"
      by (auto simp: rb_ReadBytes_def)
    from bytes_lt [OF this] show ?thesis by simp
  next
    case False
    with a show ?thesis by (auto simp: rb_ReadBytes_def)
  qed
  have line_lt: "length (rb c1) < length (rb c)"
    if "readLine c = ((p, None), c1)" for c p c1
    using that
    by (auto simp: readLine_def Let_def split: prod.splits option.splits if_splits
             dest: bytes_lt)
  have line_le: "length (rb c1) \<le> length (rb c)"
    if "readLine c = (r, c1)" for c r c1
    using that
    by (auto simp: readLine_def Let_def split: prod.splits option.splits if_splits
             dest: bytes_le)
  have full_le: "length (rb c1) \<le> length (rb c)"
    if "io_ReadFull m c = (r, c1)" for m c r c1
    using that by (auto simp: io_ReadFull_def split: if_splits)
  have bulk_le: "length (rb c1) \<le> length (rb c)"
    if "parseBulkString p c = (r, c1)" for p c r c1
    using that
    by (auto simp: parseBulkString_def Let_def split: prod.splits option.splits if_splits
             dest: full_le)
  have decode_le:
    "readResponse_parseArray_parseArray_loop_dom (Inl c) \<Longrightarrow>
       length (rb (snd (readResponse c))) \<le> length (rb c)"
    "readResponse_parseArray_parseArray_loop_dom (Inr (Inl (p, c'))) \<Longrightarrow>
       length (rb (snd (parseArray p c'))) \<le> length (rb c')"
    "readResponse_parseArray_parseArray_loop_dom (Inr (Inr (i, n, res, c''))) \<Longrightarrow>
       length (rb (snd (parseArray_loop i n res c''))) \<le> length (rb c'')"
    for c p c' i n res c''
  proof (induct c and p c' and i n res c'' rule: readResponse_parseArray_parseArray_loop.pinduct)
    case (1 c)
    obtain p e c1 where rl: "readLine c = ((p, e), c1)"
      by (metis prod.exhaust)
    have le1: "length (rb c1) \<le> length (rb c)"
      using rl by (rule line_le)
    show ?case
    proof (cases e)
      case (Some err)
      with rl le1 "1.hyps"(1) show ?thesis by (simp add: readResponse.psimps)
    next
      case None
      show ?thesis
      proof (cases p)
        case Nil
        with None rl le1 "1.hyps"(1) show ?thesis by (simp add: readResponse.psimps)
      next
        case (Cons t p1)
        have bulk: "length (rb (snd (parseBulkString p1 c1))) \<le> length (rb c1)"
          by (metis bulk_le prod.collapse)
        have arr: "t = CHR ''*'' \<Longrightarrow> length (rb (snd (parseArray p1 c1))) \<le> length (rb c1)"
          using "1.hyps"(2) [of "(p, e)" c1 p e t p1] rl None Cons by simp
        show ?thesis
          using rl None Cons le1 bulk arr "1.hyps"(1)
          by (auto simp: readResponse.psimps split: prod.splits outcome.splits)
      qed
    qed
  next
    case (2 p c)
    then show ?case
      by (auto simp: parseArray.psimps split: prod.splits option.splits)
  next
    case (3 i n result c)
    show ?case
    proof (cases "i < n")
      case False
      with "3.hyps"(1) show ?thesis by (simp add: parseArray_loop.psimps)
    next
      case True
      obtain out c1 where rr: "readResponse c = (out, c1)"
        by (metis prod.exhaust)
      have le1: "length (rb c1) \<le> length (rb c)"
        using "3.hyps"(2) [OF True] rr by simp
      show ?thesis
      proof (cases out)
        case Panic
        with True rr le1 "3.hyps"(1) show ?thesis by (simp add: parseArray_loop.psimps)
      next
        case (Return re)
        obtain r e where re: "re = (r, e)" by (metis prod.exhaust)
        show ?thesis
        proof (cases e)
          case (Some err)
          with True rr le1 Return re "3.hyps"(1) show ?thesis
            by (simp add: parseArray_loop.psimps)
        next
          case None
          have "length (rb (snd (parseArray_loop (i + 1) n (result[nat i := r]) c1)))
                  \<le> length (rb c1)"
            using "3.hyps"(3) [of out c1 re r e] True rr Return re None by simp
          with True rr le1 Return re None "3.hyps"(1) show ?thesis
            by (simp add: parseArray_loop.psimps)
        qed
      qed
    qed
  qed
  show ?thesis
  proof (relation "measures
       [\<lambda>x. case x of Inl c \<Rightarrow> length (rb c)
                 | Inr (Inl (p, c)) \<Rightarrow> length (rb c)
                 | Inr (Inr (i, n, res, c)) \<Rightarrow> length (rb c),
        \<lambda>x. case x of Inl c \<Rightarrow> 0
                 | Inr (Inl (p, c)) \<Rightarrow> 2
                 | Inr (Inr (i, n, res, c)) \<Rightarrow> 1,
        \<lambda>x. case x of Inl c \<Rightarrow> 0
                 | Inr (Inl (p, c)) \<Rightarrow> 0
                 | Inr (Inr (i, n, res, c)) \<Rightarrow> nat (n - i)]", goal_cases)
    case 1
    show ?case by simp
  next
    case (2 c x y xa ya x21 x22)
    then have "readLine c = ((xa, None), y)" by metis
    from line_lt [OF this] show ?case by simp
  next
    case (3 p c x y)
    show ?case by simp
  next
    case (4 i n result c)
    show ?case by simp
  next
    case (5 i n result c x y x1 xa ya)
    have "length (rb (snd (readResponse c))) \<le> length (rb c)"
      using 5 by (intro decode_le(1))
    moreover have "snd (readResponse c) = y"
      using 5 by (metis snd_conv)
    ultimately show ?case using 5 by auto
  qed
qed

declare readResponse.simps [simp del] parseArray.simps [simp del] parseArray_loop.simps [simp del]

section \<open>Call and the retry wrapper\<close>

text \<open>
  Modelled from the spec: the pool, of which this repository's source shows
  the uses only. It hands out a replacement connection or none
  (\<^verbatim>\<open>c.pool.Pop()\<close>) and counts the calls (\<^verbatim>\<open>c.pool.CallNum++\<close>). \<open>idle\<close> holds
  the connections it will hand out, in order. \<open>slept\<close> is the time that
  \<^verbatim>\<open>time.Sleep\<close> has taken so far, in nanoseconds.
\<close>

record env =
  CallNum :: nat
  idle :: "conn list"
  slept :: int

definition Pop :: "env \<Rightarrow> conn option \<times> env" where
  "Pop w = (case idle w of [] \<Rightarrow> (None, w) | c # cs \<Rightarrow> (Some c, w\<lparr>idle := cs\<rparr>))"

definition time_Sleep :: "int \<Rightarrow> env \<Rightarrow> env" where
  "time_Sleep d w = w\<lparr>slept := slept w + d\<rparr>"

definition Close :: "conn \<Rightarrow> conn" where
  "Close c = c\<lparr>closed := True\<rparr>"

definition Call ::
  "string \<Rightarrow> arg list \<Rightarrow> conn \<Rightarrow> env \<Rightarrow> (reply \<times> error option) outcome \<times> conn \<times> env" where
  "Call command args c w =
     (let w1 = (if has_pool c then w\<lparr>CallNum := CallNum w + 1\<rparr> else w) in
      case (if writeTimeout c > 0 then SetDeadline c else None) of
        Some e \<Rightarrow> (Return (NilIface, Some e), c, w1)
      | None \<Rightarrow>
          (case writeRequest command args c of
             (Panic, c1) \<Rightarrow> (Panic, c1, w1)
           | (Return (Some e), c1) \<Rightarrow> (Return (NilIface, Some e), c1, w1)
           | (Return None, c1) \<Rightarrow>
               (case wb_Flush c1 of
                  (Some e, c2) \<Rightarrow> (Return (NilIface, Some e), c2, w1)
                | (None, c2) \<Rightarrow>
                    (case (if readTimeout c2 > 0 then SetDeadline c2 else None) of
                       Some e \<Rightarrow> (Return (NilIface, Some e), c2, w1)
                     | None \<Rightarrow>
                         (case readResponse c2 of
                            (Panic, c3) \<Rightarrow> (Panic, c3, w1)
                          | (Return (response, Some e), c3) \<Rightarrow>
                              (Return (NilIface, Some e), c3, w1)
                          | (Return (response, None), c3) \<Rightarrow>
                              (Return (response, None), c3, w1))))))"

text \<open>
  The loop \<^verbatim>\<open>for i := 0; i < retry; i++\<close> of \<^verbatim>\<open>CallN\<close>; \<open>ret\<close> and \<open>e\<close> are its
  variables of these names, \<open>c\<close> is the connection it works on, which the
  pool's connection replaces. The connection in the result is the one the
  loop last worked on.
\<close>

function CallN_loop ::
  "int \<Rightarrow> int \<Rightarrow> string \<Rightarrow> arg list \<Rightarrow> reply \<Rightarrow> error option \<Rightarrow> conn \<Rightarrow> env \<Rightarrow>
     (reply \<times> error option) outcome \<times> conn \<times> env" where
  "CallN_loop i retry command args ret e c w =
     (if i < retry
      then (case Call command args c w of
              (Panic, c1, w1) \<Rightarrow> (Panic, c1, w1)
            | (Return (ret1, e1), c1, w1) \<Rightarrow>
                (case e1 of
                   None \<Rightarrow> CallN_loop (i + 1) retry command args ret1 e1 c1 w1
                 | Some err \<Rightarrow>
                     if \<not> strings_Contains (Error err) CommonErrPrefix
                     then (let w2 = time_Sleep RetryWaitSeconds w1;
                               c2 = Close c1
                           in if \<not> has_pool c2 then (Return (NilIface, Some err), c2, w2)
                              else (case Pop w2 of
                                      (None, w3) \<Rightarrow> (Return (NilIface, Some err), c2, w3)
                                    | (Some c3, w3) \<Rightarrow>
                                        CallN_loop (i + 1) retry command args ret1 e1 c3 w3))
                     else CallN_loop (i + 1) retry command args ret1 e1 c1 w1))
      else (Return (ret, e), c, w))"
  by pat_completeness auto
termination
  by (relation "measure (\<lambda>(i, retry, command, args, ret, e, c, w). nat (retry - i))") auto

declare CallN_loop.simps [simp del]

definition CallN ::
  "int \<Rightarrow> string \<Rightarrow> arg list \<Rightarrow> conn \<Rightarrow> env \<Rightarrow> (reply \<times> error option) outcome \<times> conn \<times> env" where
  "CallN retry command args c w = CallN_loop 0 retry command args NilIface None c w"

section \<open>Pipelining\<close>

definition PipeSend :: "string \<Rightarrow> arg list \<Rightarrow> conn \<Rightarrow> error option outcome \<times> conn" where
  "PipeSend command args c = writeRequest command args (c\<lparr>pipeCount := pipeCount c + 1\<rparr>)"

text \<open>
  The loop \<^verbatim>\<open>for i := 0; i < n; i++ { ret[i], e = c.readResponse() }\<close> of
  \<^verbatim>\<open>PipeExec\<close>.
\<close>

function PipeExec_loop ::
  "nat \<Rightarrow> nat \<Rightarrow> reply list \<Rightarrow> error option \<Rightarrow> conn \<Rightarrow>
     (reply list option \<times> error option) outcome \<times> conn" where
  "PipeExec_loop i n ret e c =
     (if i < n
      then (case readResponse c of
              (Panic, c1) \<Rightarrow> (Panic, c1)
            | (Return (r, e1), c1) \<Rightarrow> PipeExec_loop (i + 1) n (ret[i := r]) e1 c1)
      else (Return (Some ret, e), c))"
  by pat_completeness auto
termination
  by (relation "measure (\<lambda>(i, n, ret, e, c). n - i)") auto

declare PipeExec_loop.simps [simp del]

definition PipeExec :: "conn \<Rightarrow> (reply list option \<times> error option) outcome \<times> conn" where
  "PipeExec c =
     (case wb_Flush c of
        (Some e, c1) \<Rightarrow> (Return (None, Some e), c1)
      | (None, c1) \<Rightarrow>
          (let n = pipeCount c1;
               ret = replicate (pipeCount c1) NilIface;
               c2 = c1\<lparr>pipeCount := 0\<rparr>
           in PipeExec_loop 0 n ret None c2))"

section \<open>Transactions\<close>

definition MULTI :: "conn \<Rightarrow> env \<Rightarrow> error option outcome \<times> conn \<times> env" where
  "MULTI c w =
     (case Call ''MULTI'' [] c w of
        (Panic, c1, w1) \<Rightarrow> (Panic, c1, w1)
      | (Return (ret, Some e), c1, w1) \<Rightarrow> (Return (Some e), c1, w1)
      | (Return (ret, None), c1, w1) \<Rightarrow>
          (case ret of
             ByteSlice r \<Rightarrow>
               if r = ''OK'' then (Return None, c1, w1)
               else (Return (Some (errors_New (''invalid return:'' @ r))), c1, w1)
           | _ \<Rightarrow> (Return (Some ErrBadType), c1, w1)))"

definition TransSend ::
  "string \<Rightarrow> arg list \<Rightarrow> conn \<Rightarrow> env \<Rightarrow> error option outcome \<times> conn \<times> env" where
  "TransSend command args c w =
     (case Call command args c w of
        (Panic, c1, w1) \<Rightarrow> (Panic, c1, w1)
      | (Return (ret, Some e), c1, w1) \<Rightarrow> (Return (Some e), c1, w1)
      | (Return (ret, None), c1, w1) \<Rightarrow>
          (case ret of
             ByteSlice r \<Rightarrow>
               if r = ''QUEUED'' then (Return None, c1, w1)
               else (Return (Some (errors_New (''invalid return:'' @ r))), c1, w1)
           | _ \<Rightarrow> (Return (Some ErrBadType), c1, w1)))"

text \<open>
  \<^verbatim>\<open>TransExec\<close>. The error of \<^verbatim>\<open>Call\<close> is overwritten by that of the flush.
  \<^verbatim>\<open>ret == nil\<close> holds of the nil interface only; the assertion
  \<^verbatim>\<open>ret.([]interface{})\<close> panics on a value of another type.
\<close>

definition TransExec ::
  "conn \<Rightarrow> env \<Rightarrow> (reply list option \<times> error option) outcome \<times> conn \<times> env" where
  "TransExec c w =
     (case Call ''EXEC'' [] c w of
        (Panic, c1, w1) \<Rightarrow> (Panic, c1, w1)
      | (Return (ret, e), c1, w1) \<Rightarrow>
          (case wb_Flush c1 of
             (Some e1, c2) \<Rightarrow> (Return (None, Some e1), c2, w1)
           | (None, c2) \<Rightarrow>
               (case ret of
                  NilIface \<Rightarrow> (Return (None, Some ErrNil), c2, w1)
                | IfaceSlice a \<Rightarrow> (Return (a, None), c2, w1)
                | _ \<Rightarrow> (Panic, c2, w1))))"

definition Discard :: "conn \<Rightarrow> env \<Rightarrow> error option outcome \<times> conn \<times> env" where
  "Discard c w =
     (case Call ''DISCARD'' [] c w of
        (Panic, c1, w1) \<Rightarrow> (Panic, c1, w1)
      | (Return (ret, Some e), c1, w1) \<Rightarrow> (Return (Some e), c1, w1)
      | (Return (ret, None), c1, w1) \<Rightarrow>
          (case ret of
             ByteSlice r \<Rightarrow>
               if r = ''OK'' then (Return None, c1, w1)
               else (Return (Some (errors_New (''invalid return:'' @ r))), c1, w1)
           | _ \<Rightarrow> (Return (Some ErrBadType), c1, w1)))"

text \<open>
  \<^verbatim>\<open>Watch\<close>. \<^verbatim>\<open>make([]interface{}, len(keys))\<close> is a slice of nil interfaces;
  the loop \<^verbatim>\<open>for i, key := range args { args[i] = key }\<close> ranges over that
  slice, so \<open>key\<close> is the element \<open>args[i]\<close> itself.
\<close>

definition Watch_args :: "string list \<Rightarrow> arg list" where
  "Watch_args keys =
     (let args = replicate (length keys) ANil
      in foldl (\<lambda>a i. a[i := a ! i]) args [0..<length args])"

definition Watch :: "string list \<Rightarrow> conn \<Rightarrow> env \<Rightarrow> error option outcome \<times> conn \<times> env" where
  "Watch keys c w =
     (case Call ''WATCH'' (Watch_args keys) c w of
        (Panic, c1, w1) \<Rightarrow> (Panic, c1, w1)
      | (Return (ret, Some e), c1, w1) \<Rightarrow> (Return (Some e), c1, w1)
      | (Return (ret, None), c1, w1) \<Rightarrow>
          (case ret of
             ByteSlice r \<Rightarrow>
               if r = ''OK'' then (Return None, c1, w1)
               else (Return (Some (errors_New (''invalid return:'' @ r))), c1, w1)
           | _ \<Rightarrow> (Return (Some ErrBadType), c1, w1)))"

section \<open>Decoding replies in order\<close>

text \<open>
  What the specification asks of an array of \<open>k\<close> elements, in its words:
  exactly \<open>k\<close> replies are decoded recursively, in order, into a sequence.
  \<open>spec_decode_replies k c\<close> decodes \<open>k\<close> replies one after the other from the
  stream of \<open>c\<close> and gives them with the connection left, or \<open>None\<close> when one
  of them fails. It is compared with the loop of \<^verbatim>\<open>parseArray\<close> below.
\<close>

primrec spec_decode_replies :: "nat \<Rightarrow> conn \<Rightarrow> (reply list \<times> conn) option" where
  "spec_decode_replies 0 c = Some ([], c)"
| "spec_decode_replies (Suc k) c =
     (case readResponse c of
        (Return (r, None), c1) \<Rightarrow>
          (case spec_decode_replies k c1 of
             Some (rs, c2) \<Rightarrow> Some (r # rs, c2)
           | None \<Rightarrow> None)
      | _ \<Rightarrow> None)"

section \<open>The bytes of a request\<close>

text \<open>
  The request frames of the specification, in its words: an array frame
  \<^verbatim>\<open>*<argc>\r\n\<close> whose element count is one more than the number of arguments,
  then the verb and each argument as a bulk-string frame
  \<^verbatim>\<open>$<len>\r\n<bytes>\r\n\<close>, the lengths in decimal digits.
\<close>

definition spec_bulk_frame :: "bytes \<Rightarrow> bytes" where
  "spec_bulk_frame s = CHR ''$'' # nat_digits (length s) @ CRLF @ s @ CRLF"

text \<open>The bytes that the type switch of \<^verbatim>\<open>writeRequest\<close> passes on for an argument.\<close>

fun arg_bytes :: "arg \<Rightarrow> bytes" where
  "arg_bytes (AInt d) = strconv_AppendInt d"
| "arg_bytes (AInt64 d) = strconv_AppendInt d"
| "arg_bytes (AFloat64 d) = d"
| "arg_bytes (AString d) = d"
| "arg_bytes (ABytes d) = d"
| "arg_bytes (ABool d) = (if d then ''1'' else ''0'')"
| "arg_bytes ANil = []"
| "arg_bytes (AOther d) = d"

definition spec_request :: "string \<Rightarrow> arg list \<Rightarrow> bytes" where
  "spec_request command args =
     CHR ''*'' # nat_digits (1 + length args) @ CRLF @
     concat (map spec_bulk_frame (command # map arg_bytes args))"

text \<open>
  The bytes that the source writes. \<open>len_digits n\<close> is what the loop of
  \<^verbatim>\<open>writeLen\<close> leaves in front of the line end: it runs once for each decimal
  digit of \<open>n\<close>, and not at all when \<open>n\<close> is zero.
\<close>

definition len_digits :: "int \<Rightarrow> bytes" where
  "len_digits n = (if n = 0 then [] else nat_digits (nat n))"

definition written_frame :: "bytes \<Rightarrow> bytes" where
  "written_frame s = CHR ''$'' # len_digits (int (length s)) @ CRLF @ s @ CRLF"

definition written_request :: "string \<Rightarrow> arg list \<Rightarrow> bytes" where
  "written_request command args =
     CHR ''*'' # len_digits (1 + int (length args)) @ CRLF @ written_frame command @
     concat (map (\<lambda>a. written_frame (arg_bytes a)) args)"

text \<open>
  A connection is \<open>ready\<close> when its writer has met no error and its scratch
  buffer has the size \<^verbatim>\<open>NewConn\<close> gives it. A length \<open>fits\<close> when it is one of
  a Go slice or string.
\<close>

definition ready :: "conn \<Rightarrow> bool" where
  "ready c = (wb_err c = None \<and> length (buffer c) = DefaultBufferSize)"

definition fits :: "nat \<Rightarrow> bool" where
  "fits n = (int n < 2 ^ 63)"

text \<open>
  The scratch buffer after \<^verbatim>\<open>writeLen\<close> has rendered a length in it, and after
  a whole request.
\<close>

definition scratch_after :: "char \<Rightarrow> int \<Rightarrow> bytes \<Rightarrow> bytes" where
  "scratch_after prefix n buf =
     take (DefaultBufferSize - 3 - length (len_digits n)) buf @ prefix # len_digits n @ CRLF"

definition frames_scratch :: "bytes list \<Rightarrow> bytes \<Rightarrow> bytes" where
  "frames_scratch ss buf = foldl (\<lambda>b s. scratch_after (CHR ''$'') (int (length s)) b) buf ss"

definition request_scratch :: "string \<Rightarrow> arg list \<Rightarrow> bytes \<Rightarrow> bytes" where
  "request_scratch command args buf =
     frames_scratch (command # map arg_bytes args)
       (scratch_after (CHR ''*'') (1 + int (length args)) buf)"

section \<open>What the encoder writes\<close>

lemma go_quot_rem_nonneg:
  "0 \<le> i \<Longrightarrow> go_quot i 10 = i div 10" "0 \<le> i \<Longrightarrow> go_rem i 10 = i mod 10"
proof -
  assume a: "0 \<le> i"
  show q: "go_quot i 10 = i div 10"
  proof (cases "i = 0")
    case True then show ?thesis by (simp add: go_quot_def)
  next
    case False with a show ?thesis by (simp add: go_quot_def sgn_if)
  qed
  show "go_rem i 10 = i mod 10"
    using q by (simp add: go_rem_def minus_mult_div_eq_mod)
qed

lemma len_digits_step:
  assumes "0 < i"
  shows "len_digits i = len_digits (i div 10) @ [char_of (i mod 10 + of_char (CHR ''0''))]"
proof -
  have c: "char_of (i mod 10 + of_char (CHR ''0'')) = char_of (nat i mod 10 + of_char (CHR ''0''))"
  proof -
    have "i mod 10 + of_char (CHR ''0'') = int (nat i mod 10 + of_char (CHR ''0''))"
      using assms by (simp add: zmod_int)
    then show ?thesis by (simp only: char_of_nat)
  qed
  show ?thesis
  proof (cases "i < 10")
    case True
    then have "i div 10 = 0" "nat i < 10" "nat i mod 10 = nat i" using assms by auto
    then show ?thesis
      using assms c by (simp add: len_digits_def nat_digits.simps [of "nat i"])
  next
    case False
    then have "i div 10 \<noteq> 0" "\<not> nat i < 10" by auto
    moreover have "nat (i div 10) = nat i div 10" using assms by (simp add: nat_div_distrib)
    ultimately show ?thesis
      using assms c by (simp add: len_digits_def nat_digits.simps [of "nat i"])
  qed
qed

lemma writeLen_loop_digits:
  "0 \<le> i \<Longrightarrow> int (length (len_digits i)) \<le> pos + 1 \<Longrightarrow> pos < int (length buf) \<Longrightarrow>
   writeLen_loop i pos buf =
     (pos - int (length (len_digits i)),
      take (nat (pos + 1) - length (len_digits i)) buf @ len_digits i @ drop (nat (pos + 1)) buf)"
proof (induction i pos buf rule: writeLen_loop.induct)
  case (1 i pos buf)
  show ?case
  proof (cases "i = 0")
    case True
    then show ?thesis
      using "1.prems" by (simp add: writeLen_loop.simps [of 0] len_digits_def)
  next
    case False
    with "1.prems" have ipos: "0 < i" by simp
    let ?d = "char_of (i mod 10 + of_char (CHR ''0''))"
    let ?k = "length (len_digits (i div 10))"
    have step: "len_digits i = len_digits (i div 10) @ [?d]"
      using ipos by (rule len_digits_step)
    then have len: "length (len_digits i) = Suc ?k" by simp
    with "1.prems" have pos0: "0 \<le> pos" and kpos: "int ?k \<le> pos" by simp_all
    have inb: "nat pos < length buf" using "1.prems" pos0 by simp
    have IH: "writeLen_loop (i div 10) (pos - 1) (buf[nat pos := ?d]) =
       (pos - 1 - int ?k,
        take (nat (pos - 1 + 1) - ?k) (buf[nat pos := ?d]) @ len_digits (i div 10) @
          drop (nat (pos - 1 + 1)) (buf[nat pos := ?d]))"
      using "1.IH" [OF conjI [OF False pos0]] "1.prems" kpos pos0 ipos
      by (simp add: go_quot_rem_nonneg)
    have t: "take (nat pos - ?k) (buf[nat pos := ?d]) = take (nat pos - ?k) buf"
      by simp
    have d: "drop (nat pos) (buf[nat pos := ?d]) = ?d # drop (Suc (nat pos)) buf"
    proof -
      have "buf[nat pos := ?d] = take (nat pos) buf @ ?d # drop (Suc (nat pos)) buf"
        using inb by (rule upd_conv_take_nth_drop)
      then have "drop (nat pos) (buf[nat pos := ?d]) =
          drop (nat pos) (take (nat pos) buf @ ?d # drop (Suc (nat pos)) buf)"
        by simp
      also have "\<dots> = ?d # drop (Suc (nat pos)) buf"
        using inb by (simp add: min_def)
      finally show ?thesis .
    qed
    have n1: "nat (pos + 1) = Suc (nat pos)" using pos0 by simp
    have "writeLen_loop i pos buf = writeLen_loop (i div 10) (pos - 1) (buf[nat pos := ?d])"
      using False pos0 ipos by (subst writeLen_loop.simps) (simp add: go_quot_rem_nonneg)
    then show ?thesis
      using IH t d n1 len step by simp
  qed
qed


lemma len_digits_length:
  "0 \<le> n \<Longrightarrow> n < 10 ^ k \<Longrightarrow> length (len_digits n) \<le> k"
proof (induction k arbitrary: n)
  case 0
  then show ?case by (simp add: len_digits_def)
next
  case (Suc k)
  show ?case
  proof (cases "n = 0")
    case True
    then show ?thesis by (simp add: len_digits_def)
  next
    case False
    with Suc.prems have pos: "0 < n" by simp
    have "n div 10 < 10 ^ k" using Suc.prems by simp
    moreover have "0 \<le> n div 10" using pos by simp
    ultimately have "length (len_digits (n div 10)) \<le> k" by (intro Suc.IH)
    then show ?thesis by (simp add: len_digits_step [OF pos])
  qed
qed

lemma len_digits_short:
  assumes "0 \<le> n" and "n \<le> 2 ^ 63"
  shows "length (len_digits n) \<le> 19"
proof -
  have "(2::int) ^ 63 < 10 ^ 19" by simp
  with assms have "n < 10 ^ 19" by linarith
  with assms(1) show ?thesis by (rule len_digits_length)
qed

lemma length_scratch_after:
  assumes "length buf = DefaultBufferSize" and "0 \<le> n" and "n \<le> 2 ^ 63"
  shows "length (scratch_after prefix n buf) = DefaultBufferSize"
proof -
  have "length (len_digits n) \<le> 19" using assms(2,3) by (rule len_digits_short)
  then show ?thesis
    using assms(1) by (simp add: scratch_after_def DefaultBufferSize_def)
qed

lemma writeLen_ok:
  assumes r: "ready c" and n0: "0 \<le> n" and n1: "n \<le> 2 ^ 63"
  shows "writeLen prefix n c =
     (Return None,
      c\<lparr>buffer := scratch_after prefix n (buffer c), wb := wb c @ prefix # len_digits n @ CRLF\<rparr>)"
proof -
  let ?D = "len_digits n"
  let ?k = "length ?D"
  let ?buf = "buffer c"
  have L: "length ?buf = 64" and we: "wb_err c = None"
    using r by (simp_all add: ready_def DefaultBufferSize_def)
  have k: "?k \<le> 19" using n0 n1 by (rule len_digits_short)
  let ?b2 = "?buf[63 := LF, 62 := CR]"
  have s1: "set_at ?buf (int (length ?buf) - 1) LF = Some (?buf[63 := LF])"
    using L by (simp add: set_at_def)
  have s2: "set_at (?buf[63 := LF]) (int (length ?buf) - 1 - 1) CR = Some ?b2"
    using L by (simp add: set_at_def)
  have d62: "drop 62 ?b2 = CRLF"
  proof -
    have "drop 62 ?b2 = ?b2 ! 62 # drop 63 ?b2"
      using L by (simp flip: Cons_nth_drop_Suc)
    also have "drop 63 ?b2 = ?b2 ! 63 # drop 64 ?b2"
      using L by (simp flip: Cons_nth_drop_Suc)
    finally show ?thesis using L by simp
  qed
  have lp: "writeLen_loop n (int (length ?buf) - 1 - 2) ?b2 =
      (61 - int ?k, take (62 - ?k) ?b2 @ ?D @ CRLF)"
    using writeLen_loop_digits [of n 61 ?b2] n0 k L d62 by simp
  let ?b3 = "take (62 - ?k) ?b2 @ ?D @ CRLF"
  have l3: "length ?b3 = 64" using L k by simp
  have s3: "set_at ?b3 (61 - int ?k) prefix = Some (?b3[61 - ?k := prefix])"
    using k l3 by (simp add: set_at_def nat_diff_distrib del: length_append)
  let ?b4 = "?b3[61 - ?k := prefix]"
  have b4: "?b4 = take (61 - ?k) ?b2 @ prefix # ?D @ CRLF"
  proof -
    have "take (62 - ?k) ?b2 = take (61 - ?k) ?b2 @ [?b2 ! (61 - ?k)]"
    proof -
      have "62 - ?k = Suc (61 - ?k)" using k by simp
      moreover have "61 - ?k < length ?b2" using L by simp
      ultimately show ?thesis by (simp add: take_Suc_conv_app_nth)
    qed
    then have "?b3 = take (61 - ?k) ?b2 @ (?b2 ! (61 - ?k)) # ?D @ CRLF" by simp
    moreover have "length (take (61 - ?k) ?b2) = 61 - ?k" using L by simp
    ultimately show ?thesis
      by (metis list_update_length)
  qed
  have sa: "?b4 = scratch_after prefix n ?buf"
    unfolding b4 by (simp add: scratch_after_def DefaultBufferSize_def)
  have d4: "drop (nat (61 - int ?k)) ?b4 = prefix # ?D @ CRLF"
  proof -
    have "nat (61 - int ?k) = 61 - ?k" using k by simp
    then have "drop (nat (61 - int ?k)) ?b4 =
        drop (61 - ?k) (take (61 - ?k) ?b2 @ prefix # ?D @ CRLF)"
      by (simp only: b4)
    also have "\<dots> = prefix # ?D @ CRLF" using L by simp
    finally show ?thesis .
  qed
  have d4': "drop (nat (61 - int ?k)) (scratch_after prefix n ?buf) = prefix # ?D @ CRLF"
    using d4 by (simp only: sa)
  show ?thesis
    unfolding writeLen_def Let_def s1 s2 lp s3 option.case prod.case wb_Write_def sa d4'
    by (simp add: we)
qed

lemma writeString_ok:
  assumes "ready c" and "fits (length s)"
  shows "writeString s c =
     (Return None,
      c\<lparr>buffer := scratch_after (CHR ''$'') (int (length s)) (buffer c),
        wb := wb c @ written_frame s\<rparr>)"
proof -
  have "writeLen (CHR ''$'') (int (length s)) c =
      (Return None,
       c\<lparr>buffer := scratch_after (CHR ''$'') (int (length s)) (buffer c),
         wb := wb c @ CHR ''$'' # len_digits (int (length s)) @ CRLF\<rparr>)"
    using assms by (intro writeLen_ok) (auto simp: fits_def)
  then show ?thesis
    using assms(1) by (simp add: writeString_def wb_Write_def ready_def written_frame_def)
qed

lemma ready_scratch_after:
  assumes "ready c" and "0 \<le> n" and "n \<le> 2 ^ 63"
  shows "ready (c\<lparr>buffer := scratch_after prefix n (buffer c), wb := x\<rparr>)"
  using assms length_scratch_after [of "buffer c" n prefix] by (simp add: ready_def)

lemma writeBytes_eq: "writeBytes b c = writeString b c"
  by (simp add: writeBytes_def writeString_def)

lemma writeArg_eq: "writeArg a c = writeString (arg_bytes a) c"
  by (cases a) (simp_all add: writeInt64_def writeFloat64_def writeBytes_eq)

lemma writeRequest_loop_ok:
  assumes "ready c" and "\<forall>a\<in>set args. fits (length (arg_bytes a))"
  shows "writeRequest_loop args None c =
       (Return None,
        c\<lparr>buffer := frames_scratch (map arg_bytes args) (buffer c),
          wb := wb c @ concat (map (\<lambda>a. written_frame (arg_bytes a)) args)\<rparr>)"
  using assms
proof (induction args arbitrary: c)
  case Nil
  show ?case by (simp add: frames_scratch_def)
next
  case (Cons a args)
  have fa: "fits (length (arg_bytes a))" using Cons.prems(2) by simp
  have w: "writeArg a c =
      (Return None,
       c\<lparr>buffer := scratch_after (CHR ''$'') (int (length (arg_bytes a))) (buffer c),
         wb := wb c @ written_frame (arg_bytes a)\<rparr>)"
    using Cons.prems(1) fa by (simp add: writeArg_eq writeString_ok)
  let ?c1 = "c\<lparr>buffer := scratch_after (CHR ''$'') (int (length (arg_bytes a))) (buffer c),
         wb := wb c @ written_frame (arg_bytes a)\<rparr>"
  have "ready ?c1"
    using Cons.prems(1) fa by (intro ready_scratch_after) (auto simp: fits_def)
  from Cons.IH [OF this] Cons.prems(2) w show ?case
    by (simp add: frames_scratch_def)
qed

lemma writeRequest_ok:
  assumes "ready c" and "fits (length command)" and "fits (length args)"
    and "\<forall>a\<in>set args. fits (length (arg_bytes a))"
  shows "writeRequest command args c =
       (Return None,
        c\<lparr>buffer := request_scratch command args (buffer c),
          wb := wb c @ written_request command args\<rparr>)"
proof -
  have n: "0 \<le> 1 + int (length args)" "1 + int (length args) \<le> 2 ^ 63"
    using assms(3) by (auto simp: fits_def)
  have w1: "writeLen (CHR ''*'') (1 + int (length args)) c =
      (Return None,
       c\<lparr>buffer := scratch_after (CHR ''*'') (1 + int (length args)) (buffer c),
         wb := wb c @ CHR ''*'' # len_digits (1 + int (length args)) @ CRLF\<rparr>)"
    using assms(1) n by (rule writeLen_ok)
  let ?c1 = "c\<lparr>buffer := scratch_after (CHR ''*'') (1 + int (length args)) (buffer c),
         wb := wb c @ CHR ''*'' # len_digits (1 + int (length args)) @ CRLF\<rparr>"
  have r1: "ready ?c1" using assms(1) n by (rule ready_scratch_after)
  have w2: "writeString command ?c1 =
      (Return None,
       ?c1\<lparr>buffer := scratch_after (CHR ''$'') (int (length command)) (buffer ?c1),
         wb := wb ?c1 @ written_frame command\<rparr>)"
    using r1 assms(2) by (rule writeString_ok)
  let ?c2 = "?c1\<lparr>buffer := scratch_after (CHR ''$'') (int (length command)) (buffer ?c1),
         wb := wb ?c1 @ written_frame command\<rparr>"
  have r2: "ready ?c2"
    using ready_scratch_after [where c = ?c1 and n = "int (length command)" and prefix = "CHR ''$''"]
      r1 assms(2)
    by (simp add: fits_def)
  from writeRequest_loop_ok [OF r2 assms(4)] w1 w2 show ?thesis
    by (simp add: writeRequest_def written_request_def request_scratch_def frames_scratch_def)
qed

lemma length_frames_scratch:
  "length buf = DefaultBufferSize \<Longrightarrow> \<forall>s\<in>set ss. fits (length s) \<Longrightarrow>
   length (frames_scratch ss buf) = DefaultBufferSize"
proof (induction ss arbitrary: buf)
  case Nil
  then show ?case by (simp add: frames_scratch_def)
next
  case (Cons s ss)
  have "length (scratch_after (CHR ''$'') (int (length s)) buf) = DefaultBufferSize"
    using Cons.prems by (intro length_scratch_after) (auto simp: fits_def)
  from Cons.IH [OF this] Cons.prems(2) show ?case
    by (simp add: frames_scratch_def)
qed

lemma length_request_scratch:
  assumes "length buf = DefaultBufferSize" and "fits (length command)" and "fits (length args)"
    and "\<forall>a\<in>set args. fits (length (arg_bytes a))"
  shows "length (request_scratch command args buf) = DefaultBufferSize"
proof -
  have "length (scratch_after (CHR ''*'') (1 + int (length args)) buf) = DefaultBufferSize"
    using assms(1,3) by (intro length_scratch_after) (auto simp: fits_def)
  then show ?thesis
    unfolding request_scratch_def using assms(2,4) by (intro length_frames_scratch) auto
qed

lemma Call_sends:
  assumes "ready c" and "sock_fail c = None" and "fits (length command)"
    and "fits (length args)" and "\<forall>a\<in>set args. fits (length (arg_bytes a))"
  shows "Call command args c w =
       (case readResponse
               (c\<lparr>buffer := request_scratch command args (buffer c),
                  sent := sent c @ wb c @ written_request command args,
                  wb := []\<rparr>) of
          (Panic, c3) \<Rightarrow> (Panic, c3, if has_pool c then w\<lparr>CallNum := CallNum w + 1\<rparr> else w)
        | (Return (response, Some e), c3) \<Rightarrow>
            (Return (NilIface, Some e), c3, if has_pool c then w\<lparr>CallNum := CallNum w + 1\<rparr> else w)
        | (Return (response, None), c3) \<Rightarrow>
            (Return (response, None), c3, if has_pool c then w\<lparr>CallNum := CallNum w + 1\<rparr> else w))"
proof -
  have wr: "writeRequest command args c =
       (Return None,
        c\<lparr>buffer := request_scratch command args (buffer c),
          wb := wb c @ written_request command args\<rparr>)"
    using assms(1,3,4,5) by (rule writeRequest_ok)
  have ne: "written_request command args \<noteq> []"
    by (simp add: written_request_def)
  have nc: "\<not> closed c" "sock_err c = None"
    using assms(2) by (auto simp: sock_fail_def split: if_splits)
  show ?thesis
    using assms(1) ne nc
    by (simp add: Call_def wr wb_Flush_def SetDeadline_def sock_fail_def ready_def Let_def)
qed

lemma written_frame_spec:
  assumes "s \<noteq> []"
  shows "written_frame s = spec_bulk_frame s"
  using assms by (simp add: written_frame_def spec_bulk_frame_def len_digits_def)

lemma written_request_spec:
  assumes "command \<noteq> []" and "\<forall>a\<in>set args. arg_bytes a \<noteq> []"
  shows "written_request command args = spec_request command args"
proof -
  have "concat (map (\<lambda>a. written_frame (arg_bytes a)) args) =
        concat (map spec_bulk_frame (map arg_bytes args))"
    using assms(2) by (induction args) (simp_all add: written_frame_spec)
  moreover have "len_digits (1 + int (length args)) = nat_digits (1 + length args)"
  proof -
    have "nat (1 + int (length args)) = 1 + length args" by simp
    then show ?thesis by (simp add: len_digits_def)
  qed
  ultimately show ?thesis
    using assms(1) by (simp add: written_request_def spec_request_def written_frame_spec
        del: map_map)
qed

section \<open>What the decoder reads\<close>

lemma parseUint_loop_digits:
  "parseUint_loop acc s = Inr v \<Longrightarrow> \<forall>ch\<in>set s. is_digit ch"
  by (induction s arbitrary: acc) (auto simp: Let_def split: if_splits)

lemma ParseInt_no_LF:
  assumes "strconv_ParseInt p = (n, None)"
  shows "LF \<notin> set p" and "p \<noteq> []"
proof -
  from assms obtain ch s1 where p: "p = ch # s1"
    by (cases p) (auto simp: strconv_ParseInt_def)
  show "p \<noteq> []" using p by simp
  let ?s = "if ch = CHR ''+'' \<or> ch = CHR ''-'' then s1 else p"
  from assms p obtain un where un: "strconv_ParseUint ?s = Inr un"
    by (auto simp: strconv_ParseInt_def Let_def split: sum.splits num_err.splits if_splits)
  then have "\<forall>c\<in>set ?s. is_digit c"
    by (auto simp: strconv_ParseUint_def split: if_splits dest: parseUint_loop_digits)
  moreover have "\<not> is_digit LF" by (simp add: is_digit_def)
  ultimately have "LF \<notin> set ?s" by blast
  then show "LF \<notin> set p" using p by (auto split: if_splits)
qed

lemma readLine_line:
  assumes "LF \<notin> set l" and "l \<noteq> []"
  shows "readLine (c\<lparr>rb := l @ CR # LF # rest\<rparr>) = ((l, None), c\<lparr>rb := rest\<rparr>)"
proof -
  have all: "\<forall>b\<in>set l. b \<noteq> LF"
    using assms(1) by auto
  have tw: "takeWhile (\<lambda>b. b \<noteq> LF) (l @ CR # LF # rest) = l @ [CR]"
    using all by (simp add: takeWhile_append2)
  have dw: "dropWhile (\<lambda>b. b \<noteq> LF) (l @ CR # LF # rest) = LF # rest"
    using all by (simp add: dropWhile_append2)
  show ?thesis
    using assms(2) by (simp add: readLine_def rb_ReadBytes_def tw dw Let_def)
qed

lemma parseArray_loop_decodes:
  "k = nat (n - i) \<Longrightarrow> 0 \<le> i \<Longrightarrow> i \<le> n \<Longrightarrow> length result = nat n \<Longrightarrow>
   spec_decode_replies k c = Some (rs, c') \<Longrightarrow>
   parseArray_loop i n result c = (Return (Some (take (nat i) result @ rs), None), c')"
proof (induction k arbitrary: i result c rs)
  case 0
  then show ?case by (simp add: parseArray_loop.simps)
next
  case (Suc k)
  from Suc.prems have lt: "i < n" by simp
  from Suc.prems(5) obtain r c1 rs1 where
    rr: "readResponse c = (Return (r, None), c1)" and
    d: "spec_decode_replies k c1 = Some (rs1, c')" and rs: "rs = r # rs1"
    by (auto split: prod.splits outcome.splits option.splits)
  have "parseArray_loop (i + 1) n (result[nat i := r]) c1 =
          (Return (Some (take (nat (i + 1)) (result[nat i := r]) @ rs1), None), c')"
    using Suc.prems d by (intro Suc.IH) auto
  moreover have "take (nat (i + 1)) (result[nat i := r]) = take (nat i) result @ [r]"
  proof -
    have "nat i < length result" using Suc.prems lt by simp
    moreover have "nat (i + 1) = Suc (nat i)" using Suc.prems by simp
    ultimately show ?thesis
      by (simp add: take_Suc_conv_app_nth)
  qed
  ultimately show ?case
    using lt rr rs by (subst parseArray_loop.simps) simp
qed

lemma parseArray_loop_returns:
  "k = nat (n - i) \<Longrightarrow> 0 \<le> i \<Longrightarrow> i \<le> n \<Longrightarrow> length result = nat n \<Longrightarrow>
   parseArray_loop i n result c = (Return (Some xs, e), c') \<Longrightarrow>
   \<exists>rs. spec_decode_replies k c = Some (rs, c') \<and> xs = take (nat i) result @ rs \<and> e = None"
proof (induction k arbitrary: i result c)
  case 0
  then show ?case by (simp add: parseArray_loop.simps)
next
  case (Suc k)
  from Suc.prems have lt: "i < n" by simp
  from Suc.prems(5) lt obtain r c1 where
    rr: "readResponse c = (Return (r, None), c1)" and
    l: "parseArray_loop (i + 1) n (result[nat i := r]) c1 = (Return (Some xs, e), c')"
    by (subst (asm) parseArray_loop.simps)
       (auto split: prod.splits outcome.splits option.splits)
  have "\<exists>rs. spec_decode_replies k c1 = Some (rs, c') \<and>
          xs = take (nat (i + 1)) (result[nat i := r]) @ rs \<and> e = None"
    using Suc.prems l by (intro Suc.IH) auto
  then obtain rs1 where d: "spec_decode_replies k c1 = Some (rs1, c')"
    and xs: "xs = take (nat (i + 1)) (result[nat i := r]) @ rs1" and e: "e = None"
    by blast
  have "take (nat (i + 1)) (result[nat i := r]) = take (nat i) result @ [r]"
  proof -
    have "nat i < length result" using Suc.prems lt by simp
    moreover have "nat (i + 1) = Suc (nat i)" using Suc.prems by simp
    ultimately show ?thesis
      by (simp add: take_Suc_conv_app_nth)
  qed
  with rr d xs e show ?case by simp
qed

lemma parseArray_decodes:
  assumes "strconv_ParseInt p = (n, None)" and "0 \<le> n"
  shows "parseArray p c = (Return (Some rs, None), c') \<longleftrightarrow>
         spec_decode_replies (nat n) c = Some (rs, c')"
proof
  assume "spec_decode_replies (nat n) c = Some (rs, c')"
  from parseArray_loop_decodes [OF _ _ _ _ this, of n 0 "replicate (nat n) NilIface"] assms
  show "parseArray p c = (Return (Some rs, None), c')"
    by (simp add: parseArray.simps)
next
  assume "parseArray p c = (Return (Some rs, None), c')"
  with assms have "parseArray_loop 0 n (replicate (nat n) NilIface) c = (Return (Some rs, None), c')"
    by (simp add: parseArray.simps split: if_splits)
  from parseArray_loop_returns [OF _ _ _ _ this] assms
  show "spec_decode_replies (nat n) c = Some (rs, c')" by simp
qed


lemma readResponse_bulk:
  assumes "strconv_ParseInt p = (n, None)"
  shows "readResponse (c\<lparr>rb := CHR ''$'' # p @ CR # LF # rest\<rparr>) = parseBulkString p (c\<lparr>rb := rest\<rparr>)"
proof -
  have "readLine (c\<lparr>rb := (CHR ''$'' # p) @ CR # LF # rest\<rparr>) = ((CHR ''$'' # p, None), c\<lparr>rb := rest\<rparr>)"
    using ParseInt_no_LF(1) [OF assms] by (intro readLine_line) auto
  then show ?thesis
    by (simp add: readResponse.simps)
qed

lemma readResponse_array:
  assumes "strconv_ParseInt p = (n, None)"
  shows "readResponse (c\<lparr>rb := CHR ''*'' # p @ CR # LF # rest\<rparr>) =
     (case parseArray p (c\<lparr>rb := rest\<rparr>) of
        (Panic, c2) \<Rightarrow> (Panic, c2)
      | (Return (a, e), c2) \<Rightarrow> (Return (IfaceSlice a, e), c2))"
proof -
  have "readLine (c\<lparr>rb := (CHR ''*'' # p) @ CR # LF # rest\<rparr>) = ((CHR ''*'' # p, None), c\<lparr>rb := rest\<rparr>)"
    using ParseInt_no_LF(1) [OF assms] by (intro readLine_line) auto
  then show ?thesis
    by (simp add: readResponse.simps)
qed

lemma parseBulkString_null:
  "strconv_ParseInt p = (- 1, None) \<Longrightarrow> parseBulkString p c = (Return (NilIface, None), c)"
  by (simp add: parseBulkString_def)

lemma parseBulkString_payload:
  assumes "strconv_ParseInt p = (n, None)" and "0 \<le> n" and "n + 2 < 2 ^ 63"
    and "n + 2 \<le> int (length (rb c))"
  shows "parseBulkString p c =
     (Return (ByteSlice (take (nat n) (rb c)), None), c\<lparr>rb := drop (nat n + 2) (rb c)\<rparr>)"
proof -
  have w: "int64_wrap (n + 2) = n + 2"
    using assms(2,3) by (simp add: int64_wrap_def)
  have m: "nat (n + 2) = nat n + 2" using assms(2) by simp
  have "io_ReadFull (nat n + 2) c = ((take (nat n + 2) (rb c), None), c\<lparr>rb := drop (nat n + 2) (rb c)\<rparr>)"
    using assms(2,4) by (auto simp: io_ReadFull_def)
  moreover have "length (take (nat n + 2) (rb c)) = nat n + 2"
    using assms(2,4) by simp
  ultimately show ?thesis
    using assms(1,2) w m by (simp add: parseBulkString_def Let_def)
qed

lemma parseBulkString_negative:
  assumes "strconv_ParseInt p = (n, None)" and "n < - 1" and "- (2 ^ 63) \<le> n"
  shows "parseBulkString p c = (Panic, c)"
proof (cases "n = - 2")
  case True
  with assms(1) show ?thesis
    by (simp add: parseBulkString_def int64_wrap_def io_ReadFull_def)
next
  case False
  with assms(2) have "n + 2 < 0" by simp
  moreover from this assms(3) have "int64_wrap (n + 2) = n + 2"
    by (simp add: int64_wrap_def)
  ultimately show ?thesis
    using assms(1,2) by (simp add: parseBulkString_def)
qed

lemma parseBulkString_short:
  assumes "strconv_ParseInt p = (n, None)" and "0 \<le> n" and "n + 2 < 2 ^ 63"
    and "int (length (rb c)) < n + 2"
  shows "\<exists>r e. parseBulkString p c = (Return (r, Some e), c\<lparr>rb := []\<rparr>)"
proof -
  have w: "int64_wrap (n + 2) = n + 2"
    using assms(2,3) by (simp add: int64_wrap_def)
  have m: "nat (n + 2) = nat n + 2" using assms(2) by simp
  have lt: "length (rb c) < nat n + 2" using assms(2,4) by linarith
  show ?thesis
  proof (cases "rb c = []")
    case True
    then have "c\<lparr>rb := []\<rparr> = c" by simp
    with True lt assms(1,2) w m show ?thesis
      by (simp add: parseBulkString_def Let_def io_ReadFull_def)
  next
    case False
    with lt assms(1,2) w m show ?thesis
      by (simp add: parseBulkString_def Let_def io_ReadFull_def)
  qed
qed

section \<open>The rounds of the retry loop\<close>

lemma CallN_loop_done:
  "\<not> i < retry \<Longrightarrow> CallN_loop i retry command args ret e c w = (Return (ret, e), c, w)"
  by (simp add: CallN_loop.simps)

lemma CallN_loop_success:
  assumes "i < retry" and "Call command args c w = (Return (ret1, None), c1, w1)"
  shows "CallN_loop i retry command args ret e c w =
     CallN_loop (i + 1) retry command args ret1 None c1 w1"
  using assms by (subst CallN_loop.simps) simp

lemma CallN_loop_protocol_error:
  assumes "i < retry" and "Call command args c w = (Return (ret1, Some err), c1, w1)"
    and "strings_Contains (Error err) CommonErrPrefix"
  shows "CallN_loop i retry command args ret e c w =
     CallN_loop (i + 1) retry command args ret1 (Some err) c1 w1"
  using assms by (subst CallN_loop.simps) simp

lemma CallN_loop_transport_error:
  assumes "i < retry" and "Call command args c w = (Return (ret1, Some err), c1, w1)"
    and "\<not> strings_Contains (Error err) CommonErrPrefix"
  shows "CallN_loop i retry command args ret e c w =
     (if \<not> has_pool c1
      then (Return (NilIface, Some err), Close c1, time_Sleep RetryWaitSeconds w1)
      else (case Pop (time_Sleep RetryWaitSeconds w1) of
              (None, w3) \<Rightarrow> (Return (NilIface, Some err), Close c1, w3)
            | (Some c3, w3) \<Rightarrow>
                CallN_loop (i + 1) retry command args ret1 (Some err) c3 w3))"
  using assms
  by (subst CallN_loop.simps) (simp add: Let_def Close_def split: prod.splits option.splits)

section \<open>Evaluation on a fresh connection\<close>

lemmas decode_defs = readResponse.simps readLine_def rb_ReadBytes_def parseInt_def
  strconv_ParseInt_def strconv_ParseUint_def is_digit_def parseBulkString_def io_ReadFull_def
  int64_wrap_def parseArray.simps parseArray_loop.simps Let_def

lemmas request_defs = written_request_def written_frame_def len_digits_def nat_digits.simps
  char_of_eq_iff

lemma NewConn_ready:
  "ready (NewConn input rt wt pooled)" "sock_fail (NewConn input rt wt pooled) = None"
  by (simp_all add: ready_def NewConn_def sock_fail_def)

lemma ready_after_Call:
  assumes "ready c" and "fits (length command)" and "fits (length args)"
    and "\<forall>a\<in>set args. fits (length (arg_bytes a))"
  shows "ready (c\<lparr>buffer := request_scratch command args (buffer c), sent := x, wb := y, rb := z\<rparr>)"
  using assms length_request_scratch [of "buffer c" command args] by (simp add: ready_def)

lemmas eval_defs = Call_sends ready_def sock_fail_def length_request_scratch fits_def
  DefaultBufferSize_def NewConn_def decode_defs request_defs CommonErrPrefix_def

lemma Watch_args_nil: "Watch_args keys = replicate (length keys) ANil"
proof -
  have "foldl (\<lambda>a i. a[i := a ! i]) args is = args" for args :: "arg list" and "is"
    by (induction "is") simp_all
  then show ?thesis by (simp add: Watch_args_def)
qed

lemma replicate_2: "replicate 2 x = [x, x]"
  by (simp add: numeral_2_eq_2)

section \<open>The errors that Call returns\<close>

text \<open>
  When \<^verbatim>\<open>Call\<close> returns with an error, the reply beside it is the nil
  interface: each of its error branches returns \<^verbatim>\<open>nil, e\<close>. This says
  nothing of the executions in which \<^verbatim>\<open>Call\<close> does not return.
\<close>

lemma Call_returned_error_nil_reply:
  "Call command args c w = (Return (ret, Some e), c', w') \<Longrightarrow> ret = NilIface"
  by (auto simp: Call_def Let_def split: option.splits prod.splits outcome.splits if_splits)

section \<open>The claims\<close>

text \<open>
  C1. The claim: when an attempt of \<^verbatim>\<open>Call\<close> inside \<^verbatim>\<open>CallN\<close> fails with an error
  whose text carries the \<^verbatim>\<open>CommonError:\<close> prefix, \<^verbatim>\<open>CallN\<close> returns that error at
  once and makes no further attempt. The source does not: the loop has no
  return on that branch. With two attempts, on a pooled connection whose
  server answers the error \<^verbatim>\<open>-ERR x\<close> and then \<^verbatim>\<open>+OK\<close>, the first \<^verbatim>\<open>Call\<close> fails
  with the protocol error, the loop calls again, the request goes out a second
  time, the pool has counted two calls, and \<^verbatim>\<open>CallN\<close> returns \<^verbatim>\<open>OK\<close> with no error.
\<close>

theorem CallN_retries_after_protocol_error:
  "fst (Call ''GET'' [AString ''k''] (NewConn (''-ERR x'' @ CRLF @ ''+OK'' @ CRLF) rt wt True) w) =
     Return (NilIface, Some (errors_New ''CommonError:ERR x'')) \<and>
   strings_Contains ''CommonError:ERR x'' CommonErrPrefix \<and>
   fst (CallN 2 ''GET'' [AString ''k''] (NewConn (''-ERR x'' @ CRLF @ ''+OK'' @ CRLF) rt wt True) w) =
     Return (ByteSlice ''OK'', None) \<and>
   sent (fst (snd (CallN 2 ''GET'' [AString ''k''] (NewConn (''-ERR x'' @ CRLF @ ''+OK'' @ CRLF) rt wt True) w))) =
     (''*2'' @ CRLF @ ''$3'' @ CRLF @ ''GET'' @ CRLF @ ''$1'' @ CRLF @ ''k'' @ CRLF) @
     (''*2'' @ CRLF @ ''$3'' @ CRLF @ ''GET'' @ CRLF @ ''$1'' @ CRLF @ ''k'' @ CRLF) \<and>
   CallNum (snd (snd (CallN 2 ''GET'' [AString ''k''] (NewConn (''-ERR x'' @ CRLF @ ''+OK'' @ CRLF) rt wt True) w))) =
     CallNum w + 2"
  by (simp add: CallN_def CallN_loop.simps Call_sends ready_def sock_fail_def
        length_request_scratch fits_def DefaultBufferSize_def NewConn_def decode_defs
        request_defs CommonErrPrefix_def)

text \<open>
  C2. The claim: as soon as one attempt of \<^verbatim>\<open>Call\<close> inside \<^verbatim>\<open>CallN\<close> succeeds,
  \<^verbatim>\<open>CallN\<close> returns its reply and calls no more. The source does not: the loop
  goes on after a success too. With two attempts of \<^verbatim>\<open>INCR k\<close>, on a server
  that answers \<^verbatim>\<open>:1\<close> and then \<^verbatim>\<open>:2\<close>, the first \<^verbatim>\<open>Call\<close> returns 1, the command
  is sent twice, and \<^verbatim>\<open>CallN\<close> returns 2.
\<close>

theorem CallN_repeats_after_success:
  "fst (Call ''INCR'' [AString ''k''] (NewConn ('':1'' @ CRLF @ '':2'' @ CRLF) rt wt True) w) =
     Return (Int64 1, None) \<and>
   fst (CallN 2 ''INCR'' [AString ''k''] (NewConn ('':1'' @ CRLF @ '':2'' @ CRLF) rt wt True) w) =
     Return (Int64 2, None) \<and>
   sent (fst (snd (CallN 2 ''INCR'' [AString ''k''] (NewConn ('':1'' @ CRLF @ '':2'' @ CRLF) rt wt True) w))) =
     (''*2'' @ CRLF @ ''$4'' @ CRLF @ ''INCR'' @ CRLF @ ''$1'' @ CRLF @ ''k'' @ CRLF) @
     (''*2'' @ CRLF @ ''$4'' @ CRLF @ ''INCR'' @ CRLF @ ''$1'' @ CRLF @ ''k'' @ CRLF) \<and>
   CallNum (snd (snd (CallN 2 ''INCR'' [AString ''k''] (NewConn ('':1'' @ CRLF @ '':2'' @ CRLF) rt wt True) w))) =
     CallNum w + 2"
  by (simp add: CallN_def CallN_loop.simps eval_defs)


text \<open>
  C4. Let the header line of a reply hold the text \<open>p\<close> of the integer \<open>n\<close>
  after its type byte, and let \<open>rest\<close> be the stream after that line. A
  bulk string with \<open>n = -1\<close> decodes to the nil value and leaves \<open>rest\<close>
  untouched; with \<open>n\<close> not negative and \<open>n + 2\<close> bytes in \<open>rest\<close> it decodes to
  the first \<open>n\<close> bytes of \<open>rest\<close> and takes exactly \<open>n + 2\<close> bytes from the
  stream. An array with \<open>n = -1\<close> decodes to the nil slice; with \<open>n\<close> not
  negative it decodes to the sequence \<open>rs\<close> exactly when decoding \<open>n\<close>
  replies one after the other from \<open>rest\<close> gives \<open>rs\<close>, and it leaves the
  stream where the last of them left it.
\<close>

theorem decode_bulk_and_array:
  assumes "strconv_ParseInt p = (n, None)"
  shows
    "(n = - 1 \<longrightarrow>
        readResponse (c\<lparr>rb := CHR ''$'' # p @ CRLF @ rest\<rparr>) = (Return (NilIface, None), c\<lparr>rb := rest\<rparr>)) \<and>
     (0 \<le> n \<and> n + 2 < 2 ^ 63 \<and> n + 2 \<le> int (length rest) \<longrightarrow>
        readResponse (c\<lparr>rb := CHR ''$'' # p @ CRLF @ rest\<rparr>) =
          (Return (ByteSlice (take (nat n) rest), None), c\<lparr>rb := drop (nat n + 2) rest\<rparr>)) \<and>
     (n = - 1 \<longrightarrow>
        readResponse (c\<lparr>rb := CHR ''*'' # p @ CRLF @ rest\<rparr>) =
          (Return (IfaceSlice None, None), c\<lparr>rb := rest\<rparr>)) \<and>
     (0 \<le> n \<longrightarrow>
        (readResponse (c\<lparr>rb := CHR ''*'' # p @ CRLF @ rest\<rparr>) =
           (Return (IfaceSlice (Some rs), None), c') \<longleftrightarrow>
         spec_decode_replies (nat n) (c\<lparr>rb := rest\<rparr>) = Some (rs, c')))"
proof (intro conjI impI)
  assume "n = - 1"
  with assms show "readResponse (c\<lparr>rb := CHR ''$'' # p @ CRLF @ rest\<rparr>) = (Return (NilIface, None), c\<lparr>rb := rest\<rparr>)"
    by (simp add: readResponse_bulk parseBulkString_null)
next
  assume a: "0 \<le> n \<and> n + 2 < 2 ^ 63 \<and> n + 2 \<le> int (length rest)"
  have "parseBulkString p (c\<lparr>rb := rest\<rparr>) =
     (Return (ByteSlice (take (nat n) (rb (c\<lparr>rb := rest\<rparr>))), None),
      c\<lparr>rb := rest\<rparr>\<lparr>rb := drop (nat n + 2) (rb (c\<lparr>rb := rest\<rparr>))\<rparr>)"
    using assms a by (intro parseBulkString_payload) auto
  then show "readResponse (c\<lparr>rb := CHR ''$'' # p @ CRLF @ rest\<rparr>) =
          (Return (ByteSlice (take (nat n) rest), None), c\<lparr>rb := drop (nat n + 2) rest\<rparr>)"
    using assms by (simp add: readResponse_bulk)
next
  assume "n = - 1"
  with assms show "readResponse (c\<lparr>rb := CHR ''*'' # p @ CRLF @ rest\<rparr>) =
          (Return (IfaceSlice None, None), c\<lparr>rb := rest\<rparr>)"
    by (simp add: readResponse_array parseArray.simps)
next
  assume n: "0 \<le> n"
  have "(readResponse (c\<lparr>rb := CHR ''*'' # p @ CRLF @ rest\<rparr>) =
           (Return (IfaceSlice (Some rs), None), c')) =
        (parseArray p (c\<lparr>rb := rest\<rparr>) = (Return (Some rs, None), c'))"
    using assms by (auto simp: readResponse_array split: prod.splits outcome.splits)
  then show "(readResponse (c\<lparr>rb := CHR ''*'' # p @ CRLF @ rest\<rparr>) =
           (Return (IfaceSlice (Some rs), None), c')) =
         (spec_decode_replies (nat n) (c\<lparr>rb := rest\<rparr>) = Some (rs, c'))"
    using parseArray_decodes [OF assms n] by simp
qed

theorem decode_bulk_and_array_witness:
  "strconv_ParseInt ''-1'' = (- 1, None) \<and>
   strconv_ParseInt ''3'' = (3, None) \<and>
   strconv_ParseInt ''2'' = (2, None) \<and>
   readResponse ((NewConn [] 0 0 False)\<lparr>rb := ''$-1'' @ CRLF @ ''x''\<rparr>) =
     (Return (NilIface, None), (NewConn [] 0 0 False)\<lparr>rb := ''x''\<rparr>) \<and>
   readResponse ((NewConn [] 0 0 False)\<lparr>rb := ''$3'' @ CRLF @ ''abc'' @ CRLF @ ''x''\<rparr>) =
     (Return (ByteSlice ''abc'', None), (NewConn [] 0 0 False)\<lparr>rb := ''x''\<rparr>) \<and>
   readResponse ((NewConn [] 0 0 False)\<lparr>rb := ''*-1'' @ CRLF @ ''x''\<rparr>) =
     (Return (IfaceSlice None, None), (NewConn [] 0 0 False)\<lparr>rb := ''x''\<rparr>) \<and>
   readResponse ((NewConn [] 0 0 False)\<lparr>rb := ''*2'' @ CRLF @ '':7'' @ CRLF @ ''+OK'' @ CRLF @ ''x''\<rparr>) =
     (Return (IfaceSlice (Some [Int64 7, ByteSlice ''OK'']), None), (NewConn [] 0 0 False)\<lparr>rb := ''x''\<rparr>)"
proof -
  let ?c = "NewConn [] 0 0 False"
  have p1: "strconv_ParseInt ''-1'' = (- 1, None)"
    by (simp add: strconv_ParseInt_def strconv_ParseUint_def is_digit_def)
  have p3: "strconv_ParseInt ''3'' = (3, None)"
    by (simp add: strconv_ParseInt_def strconv_ParseUint_def is_digit_def)
  have p2: "strconv_ParseInt ''2'' = (2, None)"
    by (simp add: strconv_ParseInt_def strconv_ParseUint_def is_digit_def)
  have "spec_decode_replies (Suc (Suc 0)) (?c\<lparr>rb := '':7'' @ CRLF @ ''+OK'' @ CRLF @ ''x''\<rparr>) =
      Some ([Int64 7, ByteSlice ''OK''], ?c\<lparr>rb := ''x''\<rparr>)"
    by (simp add: decode_defs)
  moreover have "nat 2 = Suc (Suc 0)" by simp
  ultimately
  have d: "spec_decode_replies (nat 2) (?c\<lparr>rb := '':7'' @ CRLF @ ''+OK'' @ CRLF @ ''x''\<rparr>) =
      Some ([Int64 7, ByteSlice ''OK''], ?c\<lparr>rb := ''x''\<rparr>)"
    by (simp only:)
  from decode_bulk_and_array [where c = ?c and rest = "''x''", OF p1]
  have a: "readResponse (?c\<lparr>rb := ''$-1'' @ CRLF @ ''x''\<rparr>) = (Return (NilIface, None), ?c\<lparr>rb := ''x''\<rparr>)"
    and b: "readResponse (?c\<lparr>rb := ''*-1'' @ CRLF @ ''x''\<rparr>) = (Return (IfaceSlice None, None), ?c\<lparr>rb := ''x''\<rparr>)"
    by simp_all
  from decode_bulk_and_array [where c = ?c and rest = "''abc'' @ CRLF @ ''x''", OF p3]
  have e: "readResponse (?c\<lparr>rb := ''$3'' @ CRLF @ ''abc'' @ CRLF @ ''x''\<rparr>) =
      (Return (ByteSlice ''abc'', None), ?c\<lparr>rb := ''x''\<rparr>)"
    by simp
  from decode_bulk_and_array [where c = ?c and rest = "'':7'' @ CRLF @ ''+OK'' @ CRLF @ ''x''"
      and rs = "[Int64 7, ByteSlice ''OK'']" and c' = "?c\<lparr>rb := ''x''\<rparr>", OF p2] d
  have f: "readResponse (?c\<lparr>rb := ''*2'' @ CRLF @ '':7'' @ CRLF @ ''+OK'' @ CRLF @ ''x''\<rparr>) =
      (Return (IfaceSlice (Some [Int64 7, ByteSlice ''OK'']), None), ?c\<lparr>rb := ''x''\<rparr>)"
    by simp
  from p1 p3 p2 a e b f show ?thesis by simp
qed

text \<open>
  C5. The claim: the line read fails with a terminator error whenever the line
  does not end with \<^verbatim>\<open>\r\n\<close>, and a line that ends with a bare \<^verbatim>\<open>\n\<close> is never
  accepted. The source does not look at the byte before the \<^verbatim>\<open>\n\<close>: \<^verbatim>\<open>readLine\<close>
  cuts the last two bytes of any line of three bytes or more. On the stream
  \<^verbatim>\<open>+OK\n\<close> it returns the line \<^verbatim>\<open>+O\<close> with no error, and \<^verbatim>\<open>readResponse\<close>
  decodes the simple string \<^verbatim>\<open>O\<close>.
\<close>

theorem readLine_accepts_bare_LF:
  "readLine (c\<lparr>rb := ''+OK'' @ [LF] @ rest\<rparr>) = ((''+O'', None), c\<lparr>rb := rest\<rparr>) \<and>
   readResponse (c\<lparr>rb := ''+OK'' @ [LF] @ rest\<rparr>) = (Return (ByteSlice ''O'', None), c\<lparr>rb := rest\<rparr>)"
  by (simp add: decode_defs)

text \<open>
  C6. The claim: every argument, the empty string and nil among them, is
  written as \<^verbatim>\<open>$<len>\r\n<bytes>\r\n\<close> with the decimal digits of its length, a
  length of zero as \<^verbatim>\<open>$0\r\n\r\n\<close>. The source does not: the loop of \<^verbatim>\<open>writeLen\<close>
  writes no digit for zero. The empty string and nil are written as
  \<^verbatim>\<open>$\r\n\r\n\<close>, where the frame of the specification is \<^verbatim>\<open>$0\r\n\r\n\<close>; so
  \<^verbatim>\<open>Call("SET", "k", "")\<close> sends a last frame with an empty length.
\<close>

theorem zero_length_frame_has_no_digit:
  "writeString [] (NewConn input rt wt pooled) =
     (Return None,
      (NewConn input rt wt pooled)
        \<lparr>buffer := scratch_after (CHR ''$'') 0 (buffer (NewConn input rt wt pooled)),
         wb := ''$'' @ CRLF @ CRLF\<rparr>) \<and>
   writeArg ANil (NewConn input rt wt pooled) = writeString [] (NewConn input rt wt pooled) \<and>
   spec_bulk_frame [] = ''$0'' @ CRLF @ CRLF \<and>
   sent (fst (snd (Call ''SET'' [AString ''k'', AString []] (NewConn (''+OK'' @ CRLF) rt wt pooled) w))) =
     ''*3'' @ CRLF @ ''$3'' @ CRLF @ ''SET'' @ CRLF @ ''$1'' @ CRLF @ ''k'' @ CRLF @ ''$'' @ CRLF @ CRLF"
  by (simp add: writeString_ok NewConn_ready eval_defs spec_bulk_frame_def)

text \<open>
  C7. The claim: \<^verbatim>\<open>PipeExec\<close> returns the replies in order, or the first
  decode error met, with the slots after it left undecoded. The source does
  not: its loop has no check of the error, which the next round overwrites.
  After two \<^verbatim>\<open>PipeSend\<close>, on the replies \<^verbatim>\<open>-ERR x\<close> and \<^verbatim>\<open>+OK\<close>, the first
  decoding fails, the second slot is decoded all the same, and \<^verbatim>\<open>PipeExec\<close>
  returns no error. On the replies \<^verbatim>\<open>-ERR x\<close> and \<^verbatim>\<open>-ERR y\<close> it returns the
  second error, not the first.
\<close>

theorem PipeExec_loses_error:
  "fst (readResponse (NewConn (''-ERR x'' @ CRLF @ ''+OK'' @ CRLF) rt wt pooled)) =
     Return (NilIface, Some (errors_New ''CommonError:ERR x'')) \<and>
   fst (PipeExec (snd (PipeSend ''GET'' [AString ''b'']
          (snd (PipeSend ''GET'' [AString ''a'']
             (NewConn (''-ERR x'' @ CRLF @ ''+OK'' @ CRLF) rt wt pooled)))))) =
     Return (Some [NilIface, ByteSlice ''OK''], None) \<and>
   fst (PipeExec (snd (PipeSend ''GET'' [AString ''b'']
          (snd (PipeSend ''GET'' [AString ''a'']
             (NewConn (''-ERR x'' @ CRLF @ ''-ERR y'' @ CRLF) rt wt pooled)))))) =
     Return (Some [NilIface, NilIface], Some (errors_New ''CommonError:ERR y''))"
  by (simp add: PipeSend_def PipeExec_def PipeExec_loop.simps writeRequest_ok wb_Flush_def
        eval_defs replicate_2)

text \<open>
  C8. The claim: \<^verbatim>\<open>TransExec\<close> turns a null array reply into the error
  \<^verbatim>\<open>ErrNil\<close>. The source does not: the null array reaches \<^verbatim>\<open>TransExec\<close> as an
  interface that holds the nil slice, which the test \<^verbatim>\<open>ret == nil\<close> does not
  match. On the reply \<^verbatim>\<open>*-1\<close> \<^verbatim>\<open>TransExec\<close> returns the nil slice and no error
  at all. An array that is not null is returned as the sequence of its
  elements, as the claim says.
\<close>

theorem TransExec_null_array_no_ErrNil:
  "fst (readResponse (NewConn (''*-1'' @ CRLF) rt wt pooled)) = Return (IfaceSlice None, None) \<and>
   fst (TransExec (NewConn (''*-1'' @ CRLF) rt wt pooled) w) = Return (None, None) \<and>
   fst (TransExec (NewConn (''*2'' @ CRLF @ ''+OK'' @ CRLF @ '':1'' @ CRLF) rt wt pooled) w) =
     Return (Some [ByteSlice ''OK'', Int64 1], None)"
  by (simp add: TransExec_def wb_Flush_def eval_defs replicate_2)

text \<open>
  C9. The claim: \<^verbatim>\<open>Watch(keys)\<close> sends \<^verbatim>\<open>WATCH\<close> with exactly the given keys. The
  source does not: its loop copies the fresh slice onto itself, so the
  arguments are as many nil values as there are keys, for every list of keys.
  \<^verbatim>\<open>Watch\<close> of the keys \<^verbatim>\<open>a\<close> and \<^verbatim>\<open>b\<close> sends two frames that are empty, where the
  specification's request holds the two keys.
\<close>

theorem Watch_drops_keys:
  "Watch_args keys = replicate (length keys) ANil \<and>
   sent (fst (snd (Watch [''a'', ''b''] (NewConn (''+OK'' @ CRLF) rt wt pooled) w))) =
     ''*3'' @ CRLF @ ''$5'' @ CRLF @ ''WATCH'' @ CRLF @ ''$'' @ CRLF @ CRLF @ ''$'' @ CRLF @ CRLF \<and>
   spec_request ''WATCH'' [AString ''a'', AString ''b''] =
     ''*3'' @ CRLF @ ''$5'' @ CRLF @ ''WATCH'' @ CRLF @ ''$1'' @ CRLF @ ''a'' @ CRLF @ ''$1'' @ CRLF @ ''b'' @ CRLF"
  by (simp add: Watch_args_nil Watch_def eval_defs spec_request_def spec_bulk_frame_def)

text \<open>
  C10. The claim: every execution of \<^verbatim>\<open>Call\<close> that fails, for any command,
  arguments and input stream, returns an error that is not nil with a nil
  reply. The source does not on every stream: \<^verbatim>\<open>parseBulkString\<close> and
  \<^verbatim>\<open>parseArray\<close> panic on a length below \<open>-1\<close>, and only \<^verbatim>\<open>readLine\<close> recovers
  from a panic. On the reply \<^verbatim>\<open>$-2\<close> the slice \<^verbatim>\<open>result[:n]\<close> panics, on the reply
  \<^verbatim>\<open>*-2\<close> the allocation \<^verbatim>\<open>make([]interface{}, n)\<close> panics, and the panic leaves
  \<^verbatim>\<open>Call\<close>, which returns neither an error nor a reply.
\<close>

theorem Call_panics_on_negative_length:
  "readResponse (c\<lparr>rb := ''$-2'' @ CRLF\<rparr>) = (Panic, c\<lparr>rb := []\<rparr>) \<and>
   readResponse (c\<lparr>rb := ''*-2'' @ CRLF\<rparr>) = (Panic, c\<lparr>rb := []\<rparr>) \<and>
   fst (Call ''GET'' [AString ''k''] (NewConn (''$-2'' @ CRLF) rt wt pooled) w) = Panic \<and>
   fst (Call ''GET'' [AString ''k''] (NewConn (''*-2'' @ CRLF) rt wt pooled) w) = Panic"
  by (simp add: eval_defs)

end
